theory Spec2Isabelle
  imports Main "HOL-Library.Word"
begin

unbundle bit_operations_syntax

section \<open>Data model of upb/util/compare.c\<close>

text \<open>
  The comparison reads two byte buffers. A buffer is the list of its bytes; a
  \<^verbatim>\<open>const char *\<close> into it is the index of the byte it points at.
\<close>

type_synonym byte = "8 word"

text \<open>
  Modelled from the spec: the enum \<^verbatim>\<open>upb_UnknownCompareResult\<close> is declared
  in compare.h, which is not among the sources. Its values are the four
  results of the entry point (section 4.5); the names are the ones compare.c
  uses.
\<close>

datatype upb_UnknownCompareResult =
    kUpb_UnknownCompareResult_Equal
  | kUpb_UnknownCompareResult_NotEqual
  | kUpb_UnknownCompareResult_OutOfMemory
  | kUpb_UnknownCompareResult_MaxDepthExceeded

text \<open>
  Modelled from the spec: \<^verbatim>\<open>UPB_ASSERT\<close> and \<^verbatim>\<open>UPB_UNREACHABLE\<close> are
  macros of port_def.inc, which is not among the sources. By sections 4.1 and
  7 a violated assertion is a precondition failure that traps and is not
  reported as a result. The other traps are the ways in which a run of the C
  code leaves its semantics instead of returning: a write through a null
  pointer or past the end of an allocated block, a read past the end of a
  buffer, and a read of a union member other than the one written.
\<close>

datatype trap = AssertFailed | NullWrite | WritePastEnd | ReadPastEnd | UnionMismatch | Unreachable

text \<open>
  Modelled from the spec: \<^verbatim>\<open>UPB_LONGJMP\<close> and \<^verbatim>\<open>UPB_SETJMP\<close> are macros
  of port_def.inc; by section 5 they are the one unwind from any builder frame
  to the entry point. A builder frame stops early either by
  \<^verbatim>\<open>UPB_LONGJMP(ctx->err, r)\<close>, which hands \<open>r\<close> to the \<^verbatim>\<open>UPB_SETJMP\<close>
  of the entry point, or by a trap.
\<close>

datatype abort = Longjmp upb_UnknownCompareResult | Trap trap

text \<open>
  \<^verbatim>\<open>upb_UnknownField\<close>: a tag and a union. The union member that is
  written is kept as the constructor. A delimited payload is a view into the
  input buffer, which nothing writes, so the view is the bytes it covers. A
  group points to a \<^verbatim>\<open>upb_UnknownFields\<close>, whose \<^verbatim>\<open>size\<close> is the
  length of the list; \<^verbatim>\<open>capacity\<close> is not read once the set is built.
\<close>

datatype upb_UnknownField =
  UnknownField (tag: "32 word") (data: payload)
and payload =
    Varint "64 word"
  | UInt64 "64 word"
  | UInt32 "32 word"
  | Delimited "byte list"
  | Group "upb_UnknownField list"

type_synonym upb_UnknownFields = "upb_UnknownField list"

text \<open>
  Modelled from the spec: the constants \<^verbatim>\<open>UPB_WIRE_TYPE_*\<close> are declared in
  upb.h, which is not among the sources; section 6 gives their values.
\<close>

definition UPB_WIRE_TYPE_VARINT :: nat where "UPB_WIRE_TYPE_VARINT = 0"

definition UPB_WIRE_TYPE_64BIT :: nat where "UPB_WIRE_TYPE_64BIT = 1"

definition UPB_WIRE_TYPE_DELIMITED :: nat where "UPB_WIRE_TYPE_DELIMITED = 2"

definition UPB_WIRE_TYPE_START_GROUP :: nat where "UPB_WIRE_TYPE_START_GROUP = 3"

definition UPB_WIRE_TYPE_END_GROUP :: nat where "UPB_WIRE_TYPE_END_GROUP = 4"

definition UPB_WIRE_TYPE_32BIT :: nat where "UPB_WIRE_TYPE_32BIT = 5"

lemmas wire_type_defs =
  UPB_WIRE_TYPE_VARINT_def UPB_WIRE_TYPE_64BIT_def UPB_WIRE_TYPE_DELIMITED_def
  UPB_WIRE_TYPE_START_GROUP_def UPB_WIRE_TYPE_END_GROUP_def UPB_WIRE_TYPE_32BIT_def

section \<open>upb_UnknownFields_ParseVarint\<close>

text \<open>
  The do-while loop. \<open>bitpos\<close> and \<open>val\<close> are the locals of the C function;
  the result is the advanced pointer and \<^verbatim>\<open>*val\<close>. The assertion is the
  first statement of the body. A shift by \<open>bitpos \<le> 63\<close> on
  \<^verbatim>\<open>uint64_t\<close> drops the bits that leave the word, as \<open>push_bit\<close> does.
\<close>

function ParseVarint_loop ::
  "byte list \<Rightarrow> nat \<Rightarrow> nat \<Rightarrow> nat \<Rightarrow> 64 word \<Rightarrow> abort + nat \<times> 64 word"
where
  "ParseVarint_loop buf ptr limit bitpos val =
     (if \<not> (bitpos < 70 \<and> ptr < limit) then Inl (Trap AssertFailed)
      else if \<not> ptr < length buf then Inl (Trap ReadPastEnd)
      else
        let byte = buf ! ptr;
            val' = val OR push_bit bitpos (ucast (byte AND 0x7F))
        in if byte AND 0x80 \<noteq> 0
           then ParseVarint_loop buf (ptr + 1) limit (bitpos + 7) val'
           else Inr (ptr + 1, val'))"
  by pat_completeness auto

termination
  by (relation "measure (\<lambda>(buf, ptr, limit, bitpos, val). 70 - bitpos)") auto

definition upb_UnknownFields_ParseVarint ::
  "byte list \<Rightarrow> nat \<Rightarrow> nat \<Rightarrow> abort + nat \<times> 64 word"
where
  "upb_UnknownFields_ParseVarint buf ptr limit = ParseVarint_loop buf ptr limit 0 0"

section \<open>Allocation\<close>

text \<open>
  Modelled from the spec: the arena (\<^verbatim>\<open>upb_arena_new\<close>,
  \<^verbatim>\<open>upb_arena_realloc\<close>, \<^verbatim>\<open>upb_arena_malloc\<close>) is declared in upb.h,
  which is not among the sources; by section 6 every request either succeeds
  or fails, and a grown block keeps its contents. \<^verbatim>\<open>realloc\<close> is the one of
  the C library. An allocator fixes the outcome of every request in advance:
  whether \<^verbatim>\<open>upb_arena_new\<close> returns an arena, whether the \<open>k\<close>-th request
  to that arena succeeds, and whether the \<open>k\<close>-th call of \<^verbatim>\<open>realloc\<close> does.
\<close>

record allocator =
  arena_new_ok :: bool
  arena_ok :: "nat \<Rightarrow> bool"
  realloc_ok :: "nat \<Rightarrow> bool"

text \<open>
  \<^verbatim>\<open>upb_UnknownField_Context\<close>. \<open>ctx_end\<close> is \<^verbatim>\<open>end\<close> as an index
  into the buffer being built. \<open>ctx_arena\<close> counts the requests made to
  \<^verbatim>\<open>arena\<close>, \<open>ctx_reallocs\<close> the calls of \<^verbatim>\<open>realloc\<close>.
  \<open>ctx_tmp\<close> is \<^verbatim>\<open>tmp\<close>: \<open>None\<close> for the null pointer, \<open>Some c\<close> for
  a block of \<open>c\<close> fields. The contents of the block are not kept: every merge
  writes the part of it that it reads. \<open>ctx_depth\<close> is the \<^verbatim>\<open>int depth\<close>,
  read as a signed number by \<open>sint\<close>.
  \<^verbatim>\<open>err\<close> is the target of \<open>Longjmp\<close>.
\<close>

record upb_UnknownField_Context =
  ctx_end :: nat
  ctx_arena :: nat
  ctx_reallocs :: nat
  ctx_tmp :: "nat option"
  ctx_tmp_size :: nat
  ctx_depth :: "32 word"

section \<open>upb_UnknownFields_Grow\<close>

text \<open>
  \<open>old\<close> is \<^verbatim>\<open>*ptr - *base\<close>. The fields already stored are kept by
  \<^verbatim>\<open>upb_arena_realloc\<close>; the result is the context and the new capacity
  \<^verbatim>\<open>*end - *base\<close>. \<^verbatim>\<open>UPB_MAX\<close> (a macro of port_def.inc) is \<open>max\<close>.
\<close>

definition upb_UnknownFields_Grow ::
  "allocator \<Rightarrow> upb_UnknownField_Context \<Rightarrow> nat \<Rightarrow> abort + upb_UnknownField_Context \<times> nat"
where
  "upb_UnknownFields_Grow al ctx old =
     (let new = max 4 (old * 2)
      in if \<not> arena_ok al (ctx_arena ctx)
         then Inl (Longjmp kUpb_UnknownCompareResult_OutOfMemory)
         else Inr (ctx\<lparr>ctx_arena := ctx_arena ctx + 1\<rparr>, new))"

section \<open>upb_UnknownFields_Merge, SortRecursive and Sort\<close>

text \<open>\<^verbatim>\<open>memcpy(&dst[d], &src[s], n * sizeof(*dst))\<close> on arrays of fields.\<close>

definition memcpy_fields ::
  "upb_UnknownFields \<Rightarrow> nat \<Rightarrow> upb_UnknownFields \<Rightarrow> nat \<Rightarrow> nat \<Rightarrow> upb_UnknownFields"
where
  "memcpy_fields dst d src s n = take d dst @ take n (drop s src) @ drop (d + n) dst"

text \<open>
  The while loop of the merge. \<open>ptr1\<close>, \<open>ptr2\<close> and their ends are indices
  into \<open>tmp\<close>, \<open>out\<close> is an index into \<open>arr\<close>.
\<close>

function Merge_loop ::
  "upb_UnknownFields \<Rightarrow> nat \<Rightarrow> nat \<Rightarrow> nat \<Rightarrow> nat \<Rightarrow> upb_UnknownFields \<Rightarrow> nat \<Rightarrow>
   upb_UnknownFields \<times> nat \<times> nat \<times> nat"
where
  "Merge_loop tmp ptr1 end1 ptr2 end2 arr out =
     (if ptr1 < end1 \<and> ptr2 < end2 then
        (if tag (tmp ! ptr1) \<le> tag (tmp ! ptr2)
         then Merge_loop tmp (ptr1 + 1) end1 ptr2 end2 (arr[out := tmp ! ptr1]) (out + 1)
         else Merge_loop tmp ptr1 end1 (ptr2 + 1) end2 (arr[out := tmp ! ptr2]) (out + 1))
      else (arr, ptr1, ptr2, out))"
  by pat_completeness auto

termination
  by (relation "measure (\<lambda>(tmp, ptr1, end1, ptr2, end2, arr, out). (end1 - ptr1) + (end2 - ptr2))")
     auto

text \<open>
  The scratch block must hold \<open>end - start\<close> fields. Both final copies read
  from \<open>ptr1\<close>, as the source does.
\<close>

definition upb_UnknownFields_Merge ::
  "upb_UnknownFields \<Rightarrow> nat \<Rightarrow> nat \<Rightarrow> nat \<Rightarrow> nat option \<Rightarrow> abort + upb_UnknownFields"
where
  "upb_UnknownFields_Merge arr start mid end' tmp =
     (case tmp of
        None \<Rightarrow> Inl (Trap NullWrite)
      | Some c \<Rightarrow>
          if c < end' - start then Inl (Trap WritePastEnd)
          else
            let tmp_v = take (end' - start) (drop start arr);
                end1 = mid - start;
                end2 = end' - start
            in case Merge_loop tmp_v 0 end1 (mid - start) end2 arr start of
                 (arr1, ptr1, ptr2, out) \<Rightarrow>
                   if ptr1 < end1 then Inr (memcpy_fields arr1 out tmp_v ptr1 (end1 - ptr1))
                   else if ptr2 < end2 then Inr (memcpy_fields arr1 out tmp_v ptr1 (end2 - ptr2))
                   else Inr arr1)"

function upb_UnknownFields_SortRecursive ::
  "upb_UnknownFields \<Rightarrow> nat \<Rightarrow> nat \<Rightarrow> nat option \<Rightarrow> abort + upb_UnknownFields"
where
  "upb_UnknownFields_SortRecursive arr start end' tmp =
     (if end' - start > 1 then
        let mid = start + ((end' - start) div 2)
        in case upb_UnknownFields_SortRecursive arr start mid tmp of
             Inl e \<Rightarrow> Inl e
           | Inr arr1 \<Rightarrow>
               (case upb_UnknownFields_SortRecursive arr1 mid end' tmp of
                  Inl e \<Rightarrow> Inl e
                | Inr arr2 \<Rightarrow> upb_UnknownFields_Merge arr2 start mid end' tmp)
      else Inr arr)"
  by pat_completeness auto

termination
  by (relation "measure (\<lambda>(arr, start, end', tmp). end' - start)") auto

text \<open>
  The loop that doubles \<^verbatim>\<open>ctx->tmp_size\<close>. It is entered with a size of
  at least 8; the guard \<open>0 < ts\<close> only makes the recursion well-founded.
\<close>

function tmp_size_loop :: "nat \<Rightarrow> nat \<Rightarrow> nat" where
  "tmp_size_loop ts n = (if ts < n \<and> 0 < ts then tmp_size_loop (ts * 2) n else ts)"
  by pat_completeness auto

termination
  by (relation "measure (\<lambda>(ts, n). n - ts)") auto

text \<open>
  \<open>uf\<close> is \<^verbatim>\<open>fields->fields\<close>, its length \<^verbatim>\<open>fields->size\<close>. The
  result of \<^verbatim>\<open>realloc\<close> is stored in \<^verbatim>\<open>ctx->tmp\<close> unchecked.
\<close>

definition upb_UnknownFields_Sort ::
  "allocator \<Rightarrow> upb_UnknownField_Context \<Rightarrow> upb_UnknownFields \<Rightarrow>
   abort + upb_UnknownField_Context \<times> upb_UnknownFields"
where
  "upb_UnknownFields_Sort al ctx uf =
     (let ctx1 =
            (if ctx_tmp_size ctx < length uf then
               let ts = tmp_size_loop (max 8 (ctx_tmp_size ctx)) (length uf)
               in ctx\<lparr>ctx_tmp_size := ts,
                      ctx_tmp := (if realloc_ok al (ctx_reallocs ctx) then Some ts else None),
                      ctx_reallocs := ctx_reallocs ctx + 1\<rparr>
             else ctx)
      in case upb_UnknownFields_SortRecursive uf 0 (length uf) (ctx_tmp ctx1) of
           Inl e \<Rightarrow> Inl e
         | Inr arr \<Rightarrow> Inr (ctx1, arr))"

section \<open>upb_UnknownFields_DoBuild\<close>

text \<open>
  \<^verbatim>\<open>memcpy(&x, ptr, n)\<close> into an integer: the bytes at \<open>ptr\<close> in host
  order, taken as little-endian.
\<close>

definition load_le :: "byte list \<Rightarrow> 'a::len word" where
  "load_le bs = word_of_nat (foldr (\<lambda>b n. unat b + 256 * n) bs 0)"

text \<open>
  The builder and its while loop. The locals of a frame are the arguments of
  the loop: \<open>arr\<close> is the array from \<^verbatim>\<open>arr_base\<close> to \<^verbatim>\<open>arr_ptr\<close>,
  \<open>cap\<close> is \<^verbatim>\<open>arr_end - arr_base\<close>. A field enters \<open>arr\<close> once its
  payload is read; a frame that stops before that is left by \<open>Longjmp\<close> or a
  trap, and its array is not read again. The builder returns the context, the
  pointer stored to \<^verbatim>\<open>*buf\<close>, and the fields of the set.
\<close>

function
  upb_UnknownFields_DoBuild ::
    "allocator \<Rightarrow> byte list \<Rightarrow> upb_UnknownField_Context \<Rightarrow> nat \<Rightarrow>
     abort + upb_UnknownField_Context \<times> nat \<times> upb_UnknownFields"
and
  DoBuild_loop ::
    "allocator \<Rightarrow> byte list \<Rightarrow> upb_UnknownField_Context \<Rightarrow> upb_UnknownFields \<Rightarrow> nat \<Rightarrow>
     nat \<Rightarrow> 32 word \<Rightarrow> bool \<Rightarrow>
     abort + upb_UnknownField_Context \<times> upb_UnknownFields \<times> nat \<times> nat \<times> bool"
where
  "upb_UnknownFields_DoBuild al buf ctx buf_ptr =
     (case DoBuild_loop al buf ctx [] 0 buf_ptr 0 True of
        Inl e \<Rightarrow> Inl e
      | Inr (ctx1, arr, cap, ptr, sorted') \<Rightarrow>
          if \<not> arena_ok al (ctx_arena ctx1)
          then Inl (Longjmp kUpb_UnknownCompareResult_OutOfMemory)
          else
            let ctx2 = ctx1\<lparr>ctx_arena := ctx_arena ctx1 + 1\<rparr>
            in if \<not> sorted' then
                 (case upb_UnknownFields_Sort al ctx2 arr of
                    Inl e \<Rightarrow> Inl e
                  | Inr (ctx3, ret) \<Rightarrow> Inr (ctx3, ptr, ret))
               else Inr (ctx2, ptr, arr))"
| "DoBuild_loop al buf ctx arr cap ptr last_tag sorted' =
     (if \<not> ptr < ctx_end ctx then Inr (ctx, arr, cap, ptr, sorted')
      else
        case upb_UnknownFields_ParseVarint buf ptr (ctx_end ctx) of
          Inl e \<Rightarrow> Inl e
        | Inr (ptr1, tag') \<Rightarrow>
            if \<not> tag' \<le> 0xFFFFFFFF then Inl (Trap AssertFailed)
            else
              let wire_type = unat (tag' AND 7)
              in if wire_type = UPB_WIRE_TYPE_END_GROUP then Inr (ctx, arr, cap, ptr1, sorted')
                 else
                   let sorted1 = (if tag' < ucast last_tag then False else sorted');
                       last_tag1 = ucast tag'
                   in case (if length arr = cap then upb_UnknownFields_Grow al ctx (length arr)
                            else Inr (ctx, cap)) of
                        Inl e \<Rightarrow> Inl e
                      | Inr (ctx1, cap1) \<Rightarrow>
                          if wire_type = UPB_WIRE_TYPE_VARINT then
                            (case upb_UnknownFields_ParseVarint buf ptr1 (ctx_end ctx1) of
                               Inl e \<Rightarrow> Inl e
                             | Inr (ptr2, v) \<Rightarrow>
                                 DoBuild_loop al buf ctx1
                                   (arr @ [UnknownField (ucast tag') (Varint v)])
                                   cap1 ptr2 last_tag1 sorted1)
                          else if wire_type = UPB_WIRE_TYPE_64BIT then
                            (if \<not> 8 \<le> ctx_end ctx1 - ptr1 then Inl (Trap AssertFailed)
                             else if \<not> ptr1 + 8 \<le> length buf then Inl (Trap ReadPastEnd)
                             else
                               DoBuild_loop al buf ctx1
                                 (arr @ [UnknownField (ucast tag')
                                           (UInt64 (load_le (take 8 (drop ptr1 buf))))])
                                 cap1 (ptr1 + 8) last_tag1 sorted1)
                          else if wire_type = UPB_WIRE_TYPE_32BIT then
                            (if \<not> 4 \<le> ctx_end ctx1 - ptr1 then Inl (Trap AssertFailed)
                             else if \<not> ptr1 + 4 \<le> length buf then Inl (Trap ReadPastEnd)
                             else
                               DoBuild_loop al buf ctx1
                                 (arr @ [UnknownField (ucast tag')
                                           (UInt32 (load_le (take 4 (drop ptr1 buf))))])
                                 cap1 (ptr1 + 4) last_tag1 sorted1)
                          else if wire_type = UPB_WIRE_TYPE_DELIMITED then
                            (case upb_UnknownFields_ParseVarint buf ptr1 (ctx_end ctx1) of
                               Inl e \<Rightarrow> Inl e
                             | Inr (ptr2, size') \<Rightarrow>
                                 if \<not> unat size' \<le> ctx_end ctx1 - ptr2 then Inl (Trap AssertFailed)
                                 else if \<not> ptr2 + unat size' \<le> length buf
                                 then Inl (Trap ReadPastEnd)
                                 else
                                   DoBuild_loop al buf ctx1
                                     (arr @ [UnknownField (ucast tag')
                                               (Delimited (take (unat size') (drop ptr2 buf)))])
                                     cap1 (ptr2 + unat size') last_tag1 sorted1)
                          else if wire_type = UPB_WIRE_TYPE_START_GROUP then
                            (let ctx2 = ctx1\<lparr>ctx_depth := ctx_depth ctx1 - 1\<rparr>
                             in if ctx_depth ctx2 = 0
                                then Inl (Longjmp kUpb_UnknownCompareResult_MaxDepthExceeded)
                                else
                                  case upb_UnknownFields_DoBuild al buf ctx2 ptr1 of
                                    Inl e \<Rightarrow> Inl e
                                  | Inr (ctx3, ptr2, grp) \<Rightarrow>
                                      DoBuild_loop al buf
                                        (ctx3\<lparr>ctx_depth := ctx_depth ctx3 + 1\<rparr>)
                                        (arr @ [UnknownField (ucast tag') (Group grp)])
                                        cap1 ptr2 last_tag1 sorted1)
                          else Inl (Trap Unreachable))"
  by pat_completeness auto

text \<open>
  Termination: every iteration reads a tag, so the pointer moves forward, and
  a nested builder returns a pointer that is not behind the one it was given.
\<close>

lemma ParseVarint_loop_bounds:
  "ParseVarint_loop buf ptr limit bitpos val = Inr (ptr', v) \<Longrightarrow>
   ptr < ptr' \<and> ptr' \<le> limit \<and> ptr' \<le> length buf"
proof (induction buf ptr limit bitpos val rule: ParseVarint_loop.induct)
  case (1 buf ptr limit bitpos val)
  show ?case
  proof (cases "buf ! ptr AND 0x80 \<noteq> 0")
    case True
    with "1.prems" have ok: "bitpos < 70 \<and> ptr < limit" "ptr < length buf"
      by (auto split: if_splits)
    with "1.prems" True have
      "ParseVarint_loop buf (ptr + 1) limit (bitpos + 7)
         (val OR push_bit bitpos (ucast (buf ! ptr AND 0x7F))) = Inr (ptr', v)"
      by (simp add: Let_def)
    from "1.IH"[OF _ _ refl refl _ this] ok True show ?thesis by auto
  next
    case False
    with "1.prems" show ?thesis by (auto split: if_splits simp: Let_def)
  qed
qed

lemma ParseVarint_bounds:
  "upb_UnknownFields_ParseVarint buf ptr limit = Inr (ptr', v) \<Longrightarrow>
   ptr < ptr' \<and> ptr' \<le> limit \<and> ptr' \<le> length buf"
  unfolding upb_UnknownFields_ParseVarint_def by (rule ParseVarint_loop_bounds)

lemma DoBuild_dom_mono:
  "upb_UnknownFields_DoBuild_DoBuild_loop_dom (Inl (al, buf, ctx, p)) \<Longrightarrow>
     (\<forall>ctx' p' fs. upb_UnknownFields_DoBuild al buf ctx p = Inr (ctx', p', fs) \<longrightarrow> p \<le> p')"
  "upb_UnknownFields_DoBuild_DoBuild_loop_dom (Inr (al, buf, ctx, arr, cap, p, lt, s)) \<Longrightarrow>
     (\<forall>ctx' arr' cap' p' s'. DoBuild_loop al buf ctx arr cap p lt s = Inr (ctx', arr', cap', p', s') \<longrightarrow> p \<le> p')"
proof (induction rule: upb_UnknownFields_DoBuild_DoBuild_loop.pinduct)
  case (1 al buf ctx buf_ptr)
  then show ?case
    by (auto simp: upb_UnknownFields_DoBuild.psimps Let_def split: sum.splits if_splits prod.splits)
next
  case (2 al buf ctx arr cap ptr last_tag sorted')
  note IH = 2(2-)
  note ps = DoBuild_loop.psimps[OF 2(1)]
  show ?case
  proof (intro allI impI)
    fix ctx' arr' cap' p' s'
    assume eq: "DoBuild_loop al buf ctx arr cap ptr last_tag sorted' = Inr (ctx', arr', cap', p', s')"
    show "ptr \<le> p'"
    proof (cases "ptr < ctx_end ctx")
      case False
      with eq show ?thesis by (simp add: ps)
    next
      case inb: True
      with eq obtain ptr1 tag' where
        pv: "upb_UnknownFields_ParseVarint buf ptr (ctx_end ctx) = Inr (ptr1, tag')"
        by (cases "upb_UnknownFields_ParseVarint buf ptr (ctx_end ctx)") (auto simp: ps)
      from ParseVarint_bounds[OF pv] have lt: "ptr < ptr1" by simp
      define wt where "wt = unat (tag' AND 7)"
      have tagok: "tag' \<le> 0xFFFFFFFF"
        using eq inb pv by (cases "tag' \<le> 0xFFFFFFFF") (simp_all add: ps)
      show ?thesis
      proof (cases "wt = UPB_WIRE_TYPE_END_GROUP")
        case True
        with eq inb pv tagok lt show ?thesis by (simp add: ps wt_def)
      next
        case neg: False
        let ?g = "if length arr = cap then upb_UnknownFields_Grow al ctx (length arr) else Inr (ctx, cap)"
        obtain ctx1 cap1 where grow: "?g = Inr (ctx1, cap1)"
          using eq inb pv tagok neg by (cases ?g) (auto simp: ps wt_def Let_def)
        note eq' = eq inb pv tagok neg grow
        note ss = ps Let_def wt_def wire_type_defs
        show ?thesis
        proof (cases "wt = 0")
          case True
          with eq' obtain ptr2 v where
            pv2: "upb_UnknownFields_ParseVarint buf ptr1 (ctx_end ctx1) = Inr (ptr2, v)"
            by (cases "upb_UnknownFields_ParseVarint buf ptr1 (ctx_end ctx1)") (auto simp: ss)
          from eq' True pv2 have
            "DoBuild_loop al buf ctx1 (arr @ [UnknownField (ucast tag') (Varint v)]) cap1 ptr2
               (ucast tag') (if tag' < ucast last_tag then False else sorted') =
             Inr (ctx', arr', cap', p', s')" by (simp add: ss)
          with IH(1)[OF _ pv refl _ refl _ refl refl grow refl _ pv2 refl]
          have "ptr2 \<le> p'"
            using inb tagok neg True by (simp add: wt_def wire_type_defs)
          with ParseVarint_bounds[OF pv2] lt show ?thesis by simp
        next
          case n0: False
          show ?thesis
          proof (cases "wt = 1")
            case True
            with eq' have b: "8 \<le> ctx_end ctx1 - ptr1" "ptr1 + 8 \<le> length buf"
              by (auto simp: ss split: if_splits)
            with eq' True have
              "DoBuild_loop al buf ctx1
                 (arr @ [UnknownField (ucast tag') (UInt64 (load_le (take 8 (drop ptr1 buf))))])
                 cap1 (ptr1 + 8) (ucast tag') (if tag' < ucast last_tag then False else sorted') =
               Inr (ctx', arr', cap', p', s')" by (simp add: ss)
            with IH(2)[OF _ pv refl _ refl _ refl refl grow refl]
            have "ptr1 + 8 \<le> p'"
              using inb tagok neg True b by (simp add: wt_def wire_type_defs)
            with lt show ?thesis by simp
          next
            case n1: False
            show ?thesis
            proof (cases "wt = 5")
              case True
              with eq' have b: "4 \<le> ctx_end ctx1 - ptr1" "ptr1 + 4 \<le> length buf"
                by (auto simp: ss split: if_splits)
              with eq' True have
                "DoBuild_loop al buf ctx1
                   (arr @ [UnknownField (ucast tag') (UInt32 (load_le (take 4 (drop ptr1 buf))))])
                   cap1 (ptr1 + 4) (ucast tag') (if tag' < ucast last_tag then False else sorted') =
                 Inr (ctx', arr', cap', p', s')" by (simp add: ss)
              with IH(3)[OF _ pv refl _ refl _ refl refl grow refl]
              have "ptr1 + 4 \<le> p'"
                using inb tagok neg True b by (simp add: wt_def wire_type_defs)
              with lt show ?thesis by simp
            next
              case n5: False
              show ?thesis
              proof (cases "wt = 2")
                case True
                with eq' obtain ptr2 sz where
                  pv2: "upb_UnknownFields_ParseVarint buf ptr1 (ctx_end ctx1) = Inr (ptr2, sz)"
                  by (cases "upb_UnknownFields_ParseVarint buf ptr1 (ctx_end ctx1)") (auto simp: ss)
                from eq' True pv2 have b: "unat sz \<le> ctx_end ctx1 - ptr2" "ptr2 + unat sz \<le> length buf"
                  by (auto simp: ss split: if_splits)
                with eq' True pv2 have
                  "DoBuild_loop al buf ctx1
                     (arr @ [UnknownField (ucast tag') (Delimited (take (unat sz) (drop ptr2 buf)))])
                     cap1 (ptr2 + unat sz) (ucast tag')
                     (if tag' < ucast last_tag then False else sorted') =
                   Inr (ctx', arr', cap', p', s')" by (simp add: ss)
                with IH(4)[OF _ pv refl _ refl _ refl refl grow refl _ _ _ _ pv2 refl]
                have "ptr2 + unat sz \<le> p'"
                  using inb tagok neg True b by (simp add: wt_def wire_type_defs)
                with ParseVarint_bounds[OF pv2] lt show ?thesis by simp
              next
                case n2: False
                show ?thesis
                proof (cases "wt = 3")
                  case True
                  let ?c2 = "ctx1\<lparr>ctx_depth := ctx_depth ctx1 - 1\<rparr>"
                  from eq' True have d: "ctx_depth ctx1 - 1 \<noteq> 0"
                    by (auto simp: ss split: if_splits)
                  with eq' True obtain ctx3 ptr2 grp where
                    db: "upb_UnknownFields_DoBuild al buf ?c2 ptr1 = Inr (ctx3, ptr2, grp)"
                    by (cases "upb_UnknownFields_DoBuild al buf ?c2 ptr1") (auto simp: ss)
                  from eq' True d db have
                    c: "DoBuild_loop al buf (ctx3\<lparr>ctx_depth := ctx_depth ctx3 + 1\<rparr>)
                       (arr @ [UnknownField (ucast tag') (Group grp)]) cap1 ptr2 (ucast tag')
                       (if tag' < ucast last_tag then False else sorted') =
                     Inr (ctx', arr', cap', p', s')" by (simp add: ss)
                  have "ptr1 \<le> ptr2"
                    using IH(5)[OF _ pv refl _ refl _ refl refl grow refl _ _ _ _ _ refl] db
                      inb tagok neg True d by (simp add: wt_def wire_type_defs)
                  moreover have "ptr2 \<le> p'"
                    using IH(6)[OF _ pv refl _ refl _ refl refl grow refl _ _ _ _ _ refl _ db refl refl] c
                      inb tagok neg True d by (simp add: wt_def wire_type_defs)
                  ultimately show ?thesis using lt by simp
                next
                  case False
                  with eq' n0 n1 n5 n2 show ?thesis by (simp add: ss)
                qed
              qed
            qed
          qed
        qed
      qed
    qed
  qed
qed

termination upb_UnknownFields_DoBuild
proof (relation "measure (\<lambda>x. case x of
          Inl (al, buf, ctx, p) \<Rightarrow> 2 * (length buf - p) + 1
        | Inr (al, buf, ctx, arr, cap, p, lt, s) \<Rightarrow> 2 * (length buf - p))", goal_cases)
  case 1
  show ?case by simp
next
  case 2
  show ?case by simp
next
  case (3 al buf ctx arr cap ptr last_tag sorted' b x y xa xb xc ba xd ya bb xe yb)
  from 3(2,3) ParseVarint_bounds[of buf ptr "ctx_end ctx" x y] have "ptr < x" "x \<le> length buf" by auto
  moreover from 3(12,13) ParseVarint_bounds[of buf x "ctx_end xd" xe yb] have "x < xe" by auto
  ultimately show ?case by simp
next
  case (4 al buf ctx arr cap ptr last_tag sorted' b x y xa xb xc ba xd ya)
  from 4(2,3) ParseVarint_bounds[of buf ptr "ctx_end ctx" x y] have "ptr < x" "x \<le> length buf" by auto
  then show ?case by simp
next
  case (5 al buf ctx arr cap ptr last_tag sorted' b x y xa xb xc ba xd ya)
  from 5(2,3) ParseVarint_bounds[of buf ptr "ctx_end ctx" x y] have "ptr < x" "x \<le> length buf" by auto
  then show ?case by simp
next
  case (6 al buf ctx arr cap ptr last_tag sorted' b x y xa xb xc ba xd ya bb xe yb)
  from 6(2,3) ParseVarint_bounds[of buf ptr "ctx_end ctx" x y] have "ptr < x" "x \<le> length buf" by auto
  moreover from 6(15,16) ParseVarint_bounds[of buf x "ctx_end xd" xe yb] have "x < xe" by auto
  ultimately show ?case by simp
next
  case (7 al buf ctx arr cap ptr last_tag sorted' b x y xa xb xc ba xd ya xaa)
  from 7(2,3) ParseVarint_bounds[of buf ptr "ctx_end ctx" x y] have "ptr < x" "x \<le> length buf" by auto
  then show ?case by simp
next
  case (8 al buf ctx arr cap ptr last_tag sorted' b x y xa xb xc ba xd ya xaa bb xe yb xf yc)
  from 8(2,3) ParseVarint_bounds[of buf ptr "ctx_end ctx" x y] have "ptr < x" "x \<le> length buf" by auto
  moreover from 8 DoBuild_dom_mono(1)[of al buf xaa x] have "x \<le> xf" by auto
  ultimately show ?case by simp
qed

declare ParseVarint_loop.simps [simp del] Merge_loop.simps [simp del]
  upb_UnknownFields_SortRecursive.simps [simp del] tmp_size_loop.simps [simp del]
  upb_UnknownFields_DoBuild.simps [simp del] DoBuild_loop.simps [simp del]

section \<open>upb_UnknownFields_Build\<close>

text \<open>The buffer is \<open>buf\<close> with \<^verbatim>\<open>size\<close> its length.\<close>

definition upb_UnknownFields_Build ::
  "allocator \<Rightarrow> upb_UnknownField_Context \<Rightarrow> byte list \<Rightarrow>
   abort + upb_UnknownField_Context \<times> upb_UnknownFields"
where
  "upb_UnknownFields_Build al ctx buf =
     (let ctx1 = ctx\<lparr>ctx_end := length buf\<rparr>
      in case upb_UnknownFields_DoBuild al buf ctx1 0 of
           Inl e \<Rightarrow> Inl e
         | Inr (ctx2, ptr, uf) \<Rightarrow>
             if ptr \<noteq> ctx_end ctx2 then Inl (Trap AssertFailed) else Inr (ctx2, uf))"

section \<open>upb_UnknownFields_IsEqual\<close>

text \<open>
  The comparator and its for loop; \<open>n\<close> is \<^verbatim>\<open>uf1->size\<close>. The switch
  reads the union member of the wire type of \<^verbatim>\<open>f1->tag\<close> in both fields.
  \<^verbatim>\<open>upb_strview_eql\<close> is declared in upb.h, which is not among the sources;
  by section 6 it is the equality of the bytes of two spans.
\<close>

function
  upb_UnknownFields_IsEqual :: "upb_UnknownFields \<Rightarrow> upb_UnknownFields \<Rightarrow> abort + bool"
and
  IsEqual_loop :: "upb_UnknownFields \<Rightarrow> upb_UnknownFields \<Rightarrow> nat \<Rightarrow> abort + bool"
where
  "upb_UnknownFields_IsEqual uf1 uf2 =
     (if length uf1 \<noteq> length uf2 then Inr False else IsEqual_loop uf1 uf2 0)"
| "IsEqual_loop uf1 uf2 i =
     (if \<not> i < length uf1 then Inr True
      else if \<not> i < length uf2 then Inl (Trap ReadPastEnd)
      else
        let f1 = uf1 ! i; f2 = uf2 ! i
        in if tag f1 \<noteq> tag f2 then Inr False
           else
             let wire_type = unat (tag f1 AND 7)
             in if wire_type = UPB_WIRE_TYPE_VARINT then
                  (case (data f1, data f2) of
                     (Varint a, Varint b) \<Rightarrow>
                       if a \<noteq> b then Inr False else IsEqual_loop uf1 uf2 (i + 1)
                   | _ \<Rightarrow> Inl (Trap UnionMismatch))
                else if wire_type = UPB_WIRE_TYPE_64BIT then
                  (case (data f1, data f2) of
                     (UInt64 a, UInt64 b) \<Rightarrow>
                       if a \<noteq> b then Inr False else IsEqual_loop uf1 uf2 (i + 1)
                   | _ \<Rightarrow> Inl (Trap UnionMismatch))
                else if wire_type = UPB_WIRE_TYPE_32BIT then
                  (case (data f1, data f2) of
                     (UInt32 a, UInt32 b) \<Rightarrow>
                       if a \<noteq> b then Inr False else IsEqual_loop uf1 uf2 (i + 1)
                   | _ \<Rightarrow> Inl (Trap UnionMismatch))
                else if wire_type = UPB_WIRE_TYPE_DELIMITED then
                  (case (data f1, data f2) of
                     (Delimited a, Delimited b) \<Rightarrow>
                       if \<not> a = b then Inr False else IsEqual_loop uf1 uf2 (i + 1)
                   | _ \<Rightarrow> Inl (Trap UnionMismatch))
                else if wire_type = UPB_WIRE_TYPE_START_GROUP then
                  (case (data f1, data f2) of
                     (Group a, Group b) \<Rightarrow>
                       (case upb_UnknownFields_IsEqual a b of
                          Inl e \<Rightarrow> Inl e
                        | Inr eq \<Rightarrow>
                            if \<not> eq then Inr False else IsEqual_loop uf1 uf2 (i + 1))
                   | _ \<Rightarrow> Inl (Trap UnionMismatch))
                else Inl (Trap Unreachable))"
  by pat_completeness auto

text \<open>Termination: a group is smaller than the set that holds it.\<close>

lemma size_nth_Group:
  "i < length uf \<Longrightarrow> data (uf ! i) = Group g \<Longrightarrow> size_list size g < size_list size uf"
proof (induction uf arbitrary: i)
  case Nil
  then show ?case by simp
next
  case (Cons f uf)
  show ?case
  proof (cases i)
    case 0
    with Cons.prems show ?thesis by (cases f) simp
  next
    case (Suc j)
    with Cons show ?thesis by fastforce
  qed
qed

termination upb_UnknownFields_IsEqual
proof (relation "inv_image (less_than <*lex*> less_than) (\<lambda>x. case x of
          Inl (uf1, uf2) \<Rightarrow> (size_list size uf1, length uf1 + 1)
        | Inr (uf1, uf2, i) \<Rightarrow> (size_list size uf1, length uf1 - i))", goal_cases)
  case (7 uf1 uf2 i x xa xb xc y x5 x5a)
  from 7 have "i < length uf1" "data (uf1 ! i) = Group x5" by auto
  then have "size_list size x5 < size_list size uf1" by (rule size_nth_Group)
  then show ?case by simp
qed auto

declare upb_UnknownFields_IsEqual.simps [simp del] IsEqual_loop.simps [simp del]

section \<open>upb_Message_UnknownFieldsAreEqual\<close>

text \<open>
  \<^verbatim>\<open>memcmp(s1, s2, n) == 0\<close>, of the C library: both buffers are read as
  objects of \<open>n\<close> bytes. With fewer than \<open>n\<close> bytes in one of them the call
  reads past its end, wherever the first difference is; C leaves that
  undefined, and it is a trap here. Otherwise the result is whether the first
  \<open>n\<close> bytes are the same.
\<close>

definition memcmp_is_0 :: "byte list \<Rightarrow> byte list \<Rightarrow> nat \<Rightarrow> trap + bool" where
  "memcmp_is_0 s1 s2 n =
     (if length s1 < n \<or> length s2 < n then Inl ReadPastEnd
      else Inr (take n s1 = take n s2))"

text \<open>
  The entry point. \<^verbatim>\<open>size1\<close> and \<^verbatim>\<open>size2\<close> are the lengths of the
  buffers. \<^verbatim>\<open>UPB_SETJMP\<close> returns 0 first and the value of a
  \<open>Longjmp\<close> afterwards; that value is then what the function returns. A
  trap is no return at all, and is kept apart from the four results.
\<close>

definition upb_Message_UnknownFieldsAreEqual ::
  "allocator \<Rightarrow> byte list \<Rightarrow> byte list \<Rightarrow> 32 word \<Rightarrow> trap + upb_UnknownCompareResult"
where
  "upb_Message_UnknownFieldsAreEqual al buf1 buf2 max_depth =
     (let size1 = length buf1; size2 = length buf2
      in if size1 = 0 \<and> size2 = 0 then Inr kUpb_UnknownCompareResult_Equal
         else if size1 = 0 \<or> size2 = 0 then Inr kUpb_UnknownCompareResult_NotEqual
         else
           case memcmp_is_0 buf1 buf2 size1 of
             Inl t \<Rightarrow> Inl t
           | Inr True \<Rightarrow> Inr kUpb_UnknownCompareResult_Equal
           | Inr False \<Rightarrow>
               let ctx = \<lparr>ctx_end = 0, ctx_arena = 0, ctx_reallocs = 0, ctx_tmp = None,
                          ctx_tmp_size = 0, ctx_depth = max_depth\<rparr>
               in if \<not> arena_new_ok al then Inr kUpb_UnknownCompareResult_OutOfMemory
                  else
                    case
                      (case upb_UnknownFields_Build al ctx buf1 of
                         Inl e \<Rightarrow> Inl e
                       | Inr (ctx1, uf1) \<Rightarrow>
                           (case upb_UnknownFields_Build al ctx1 buf2 of
                              Inl e \<Rightarrow> Inl e
                            | Inr (ctx2, uf2) \<Rightarrow> upb_UnknownFields_IsEqual uf1 uf2))
                    of
                      Inl (Longjmp ret) \<Rightarrow> Inr ret
                    | Inl (Trap t) \<Rightarrow> Inl t
                    | Inr True \<Rightarrow> Inr kUpb_UnknownCompareResult_Equal
                    | Inr False \<Rightarrow> Inr kUpb_UnknownCompareResult_NotEqual)"

text \<open>An allocator on which every request succeeds.\<close>

definition no_failure :: allocator where
  "no_failure = \<lparr>arena_new_ok = True, arena_ok = (\<lambda>k. True), realloc_ok = (\<lambda>k. True)\<rparr>"

section \<open>Notions used in the statements\<close>

text \<open>
  The value the wire format gives to a run of bytes: the low 7 bits of the
  byte at index \<open>i\<close>, counted from \<open>j\<close>, shifted left by 7 times its index,
  all joined by OR in a 64-bit word.
\<close>

fun varint_groups :: "nat \<Rightarrow> byte list \<Rightarrow> 64 word" where
  "varint_groups i [] = 0"
| "varint_groups i (b # bs) = push_bit (7 * i) (ucast (b AND 0x7F)) OR varint_groups (i + 1) bs"

text \<open>
  A varint is a non-empty run of at most 10 bytes in which every byte but the
  last has the continuation bit 0x80 set and the last has it clear.
\<close>

fun continued :: "byte list \<Rightarrow> bool" where
  "continued [] = False"
| "continued [b] = (b AND 0x80 = 0)"
| "continued (b # bs) = (b AND 0x80 \<noteq> 0 \<and> continued bs)"

definition is_varint :: "byte list \<Rightarrow> bool" where
  "is_varint bs = (continued bs \<and> length bs \<le> 10)"

text \<open>
  The invariant of a built set: the union member written in a field is the
  one of the wire type \<^verbatim>\<open>tag & 7\<close>, in the set and in every group below it.
\<close>

fun well_typed_field :: "upb_UnknownField \<Rightarrow> bool"
and well_typed_payload :: "nat \<Rightarrow> payload \<Rightarrow> bool"
where
  "well_typed_field (UnknownField t d) = well_typed_payload (unat (t AND 7)) d"
| "well_typed_payload w (Varint v) = (w = UPB_WIRE_TYPE_VARINT)"
| "well_typed_payload w (UInt64 v) = (w = UPB_WIRE_TYPE_64BIT)"
| "well_typed_payload w (UInt32 v) = (w = UPB_WIRE_TYPE_32BIT)"
| "well_typed_payload w (Delimited v) = (w = UPB_WIRE_TYPE_DELIMITED)"
| "well_typed_payload w (Group g) = (w = UPB_WIRE_TYPE_START_GROUP \<and> (\<forall>f \<in> set g. well_typed_field f))"

definition well_typed :: "upb_UnknownFields \<Rightarrow> bool" where
  "well_typed uf = (\<forall>f \<in> set uf. well_typed_field f)"

text \<open>
  The scratch pointer and its size agree: the pointer is null while the size
  is 0, and a block of \<^verbatim>\<open>tmp_size\<close> fields afterwards.
\<close>

definition ctx_ok :: "upb_UnknownField_Context \<Rightarrow> bool" where
  "ctx_ok ctx =
     (ctx_tmp ctx = (if ctx_tmp_size ctx = 0 then None else Some (ctx_tmp_size ctx)))"

definition never_fails :: "allocator \<Rightarrow> bool" where
  "never_fails al = (arena_new_ok al \<and> (\<forall>k. arena_ok al k) \<and> (\<forall>k. realloc_ok al k))"

text \<open>
  The wire format of unknown fields, as a syntax of byte strings. A field is
  its tag bytes followed by its payload; a group is a start tag, fields, and
  an end tag. A buffer is the bytes of a list of fields.
\<close>

datatype wire_field =
    WVarint "byte list" "byte list"
  | WFixed64 "byte list" "byte list"
  | WFixed32 "byte list" "byte list"
  | WDelimited "byte list" "byte list" "byte list"
  | WGroup "byte list" "wire_field list" "byte list"

text \<open>A tag of wire type \<open>w\<close>: a varint that fits 32 bits and has \<open>w\<close> in its low 3 bits.\<close>

definition is_tag :: "nat \<Rightarrow> byte list \<Rightarrow> bool" where
  "is_tag w t =
     (is_varint t \<and> varint_groups 0 t \<le> 0xFFFFFFFF \<and> unat (varint_groups 0 t AND 7) = w)"

fun wire_bytes :: "wire_field \<Rightarrow> byte list"
and wire_bytes_list :: "wire_field list \<Rightarrow> byte list"
where
  "wire_bytes (WVarint t v) = t @ v"
| "wire_bytes (WFixed64 t bs) = t @ bs"
| "wire_bytes (WFixed32 t bs) = t @ bs"
| "wire_bytes (WDelimited t l bs) = t @ l @ bs"
| "wire_bytes (WGroup t fs e) = t @ wire_bytes_list fs @ e"
| "wire_bytes_list [] = []"
| "wire_bytes_list (f # fs) = wire_bytes f @ wire_bytes_list fs"

fun well_formed :: "wire_field \<Rightarrow> bool"
and well_formed_list :: "wire_field list \<Rightarrow> bool"
where
  "well_formed (WVarint t v) = (is_tag UPB_WIRE_TYPE_VARINT t \<and> is_varint v)"
| "well_formed (WFixed64 t bs) = (is_tag UPB_WIRE_TYPE_64BIT t \<and> length bs = 8)"
| "well_formed (WFixed32 t bs) = (is_tag UPB_WIRE_TYPE_32BIT t \<and> length bs = 4)"
| "well_formed (WDelimited t l bs) =
     (is_tag UPB_WIRE_TYPE_DELIMITED t \<and> is_varint l \<and> unat (varint_groups 0 l) = length bs)"
| "well_formed (WGroup t fs e) =
     (is_tag UPB_WIRE_TYPE_START_GROUP t \<and> well_formed_list fs \<and> is_tag UPB_WIRE_TYPE_END_GROUP e)"
| "well_formed_list [] = True"
| "well_formed_list (f # fs) = (well_formed f \<and> well_formed_list fs)"

text \<open>
  The number of group levels: 0 for a field that is not a group, and one more
  than its contents for a group; for a list, the largest of its fields.
\<close>

fun group_levels :: "wire_field \<Rightarrow> nat"
and group_levels_list :: "wire_field list \<Rightarrow> nat"
where
  "group_levels (WVarint t v) = 0"
| "group_levels (WFixed64 t bs) = 0"
| "group_levels (WFixed32 t bs) = 0"
| "group_levels (WDelimited t l bs) = 0"
| "group_levels (WGroup t fs e) = Suc (group_levels_list fs)"
| "group_levels_list [] = 0"
| "group_levels_list (f # fs) = max (group_levels f) (group_levels_list fs)"

text \<open>The context after the growth check of one iteration, and the capacity.\<close>

definition grown_ctx :: "upb_UnknownField_Context \<Rightarrow> nat \<Rightarrow> nat \<Rightarrow> upb_UnknownField_Context" where
  "grown_ctx ctx n cap = (if n = cap then ctx\<lparr>ctx_arena := ctx_arena ctx + 1\<rparr> else ctx)"

definition grown_cap :: "nat \<Rightarrow> nat \<Rightarrow> nat" where
  "grown_cap n cap = (if n = cap then max 4 (n * 2) else cap)"

text \<open>
  The loop started in one state continues as the loop in a later state at
  \<open>p'\<close>, with the same end and budget and a consistent scratch block.
\<close>

definition passes ::
  "allocator \<Rightarrow> byte list \<Rightarrow> upb_UnknownField_Context \<Rightarrow> upb_UnknownFields \<Rightarrow> nat \<Rightarrow> nat \<Rightarrow>
   32 word \<Rightarrow> bool \<Rightarrow> nat \<Rightarrow> bool"
where
  "passes al buf ctx arr cap p lt s p' =
     (\<exists>ctx' arr' cap' lt' s'.
        DoBuild_loop al buf ctx arr cap p lt s = DoBuild_loop al buf ctx' arr' cap' p' lt' s' \<and>
        ctx_ok ctx' \<and> ctx_end ctx' = ctx_end ctx \<and> ctx_depth ctx' = ctx_depth ctx)"

text \<open>
  What the loop does on bytes \<open>bs\<close> with \<open>n\<close> group levels, found anywhere in
  a buffer. The counter is decremented and then tested against 0 at every
  level entered, so a budget \<open>d\<close> is used up by the level at which the
  counter, as a 32-bit pattern, reaches 0: there is room for \<open>unat (d - 1)\<close>
  levels. With that room the loop reaches the byte after \<open>bs\<close>; otherwise it
  leaves by \<open>Longjmp\<close> with MaxDepthExceeded.
\<close>

definition steps_over :: "allocator \<Rightarrow> byte list \<Rightarrow> nat \<Rightarrow> bool" where
  "steps_over al bs n =
     (\<forall>pre post ctx arr cap lt s.
        ctx_ok ctx \<longrightarrow> ctx_end ctx = length (pre @ bs @ post) \<longrightarrow>
        (if n \<le> unat (ctx_depth ctx - 1)
         then passes al (pre @ bs @ post) ctx arr cap (length pre) lt s (length pre + length bs)
         else DoBuild_loop al (pre @ bs @ post) ctx arr cap (length pre) lt s =
                Inl (Longjmp kUpb_UnknownCompareResult_MaxDepthExceeded)))"

section \<open>The entry point on its fast paths\<close>

lemma memcmp_is_0_refl: "memcmp_is_0 s s (length s) = Inr True"
  by (simp add: memcmp_is_0_def)

lemma memcmp_is_0_prefix:
  "length s1 \<le> length s2 \<Longrightarrow> take (length s1) s2 = s1 \<Longrightarrow>
   memcmp_is_0 s1 s2 (length s1) = Inr True"
  by (simp add: memcmp_is_0_def)

section \<open>The value of a varint\<close>

lemma ParseVarint_loop_bytes:
  "continued v \<Longrightarrow> j + length v \<le> 10 \<Longrightarrow> length pre + length v \<le> limit \<Longrightarrow>
   ParseVarint_loop (pre @ v @ post) (length pre) limit (7 * j) acc =
     Inr (length pre + length v, acc OR varint_groups j v)"
proof (induction v arbitrary: pre j acc rule: continued.induct)
  case 1
  then show ?case by simp
next
  case (2 b)
  then show ?case
    by (subst ParseVarint_loop.simps) (simp add: Let_def)
next
  case (3 b c bs)
  from "3.prems" have c: "b AND 0x80 \<noteq> 0" "continued (c # bs)" by simp_all
  have "ParseVarint_loop ((pre @ [b]) @ (c # bs) @ post) (length (pre @ [b])) limit (7 * (j + 1))
          (acc OR push_bit (7 * j) (ucast (b AND 0x7F))) =
        Inr (length (pre @ [b]) + length (c # bs),
             (acc OR push_bit (7 * j) (ucast (b AND 0x7F))) OR varint_groups (j + 1) (c # bs))"
    using "3.prems" c by (intro "3.IH") simp_all
  then have step:
    "ParseVarint_loop (pre @ b # c # bs @ post) (length pre + 1) limit (7 * j + 7)
          (acc OR push_bit (7 * j) (ucast (b AND 0x7F))) =
        Inr (length pre + length (b # c # bs), acc OR varint_groups j (b # c # bs))"
    by (simp add: or.assoc add.commute)
  have here: "7 * j < 70" "length pre < limit" "length pre < length (pre @ b # c # bs @ post)"
    "(pre @ b # c # bs @ post) ! length pre = b"
    using "3.prems" by simp_all
  show ?case
    using step c here by (subst ParseVarint_loop.simps) (simp add: Let_def)
qed

lemma ParseVarint_bytes:
  "is_varint v \<Longrightarrow> length pre + length v \<le> limit \<Longrightarrow>
   upb_UnknownFields_ParseVarint (pre @ v @ post) (length pre) limit =
     Inr (length pre + length v, varint_groups 0 v)"
  unfolding upb_UnknownFields_ParseVarint_def is_varint_def
  using ParseVarint_loop_bytes[of v 0 pre limit post 0] by simp

lemma continued_iff:
  "continued bs \<longleftrightarrow> bs \<noteq> [] \<and> (\<forall>i < length bs - 1. bs ! i AND 0x80 \<noteq> 0) \<and> last bs AND 0x80 = 0"
proof (induction bs rule: continued.induct)
  case 1
  then show ?case by simp
next
  case (2 b)
  then show ?case by simp
next
  case (3 b c bs)
  then show ?case by (auto simp: nth_Cons split: nat.splits)
qed

lemma low7_eq_take_bit: "(b :: byte) AND 0x7F = take_bit 7 b"
  by (simp add: take_bit_eq_mask mask_eq_exp_minus_1)

lemma bit_low7_group:
  "bit (push_bit (7 * j) (ucast ((b :: byte) AND 0x7F)) :: 64 word) n \<longleftrightarrow>
     n < 64 \<and> n div 7 = j \<and> bit b (n mod 7)"
proof -
  have a: "bit (push_bit (7 * j) (ucast (take_bit 7 b)) :: 64 word) n \<longleftrightarrow>
          7 * j \<le> n \<and> n < 64 \<and> n - 7 * j < 7 \<and> bit b (n - 7 * j)"
    by (auto simp: bit_push_bit_iff bit_ucast_iff bit_take_bit_iff dest: bit_imp_le_length)
  have b: "7 * j \<le> n \<and> n - 7 * j < 7 \<longleftrightarrow> n div 7 = j" by arith
  have c: "n div 7 = j \<Longrightarrow> n - 7 * j = n mod 7" by arith
  show ?thesis unfolding low7_eq_take_bit a using b c by auto
qed

lemma bit_varint_groups:
  "bit (varint_groups j bs) n \<longleftrightarrow>
     n < 64 \<and> j \<le> n div 7 \<and> n div 7 - j < length bs \<and> bit (bs ! (n div 7 - j)) (n mod 7)"
proof (induction bs arbitrary: j)
  case Nil
  then show ?case by simp
next
  case (Cons b bs)
  have split: "bit (varint_groups j (b # bs)) n \<longleftrightarrow>
     (n < 64 \<and> n div 7 = j \<and> bit b (n mod 7)) \<or> bit (varint_groups (j + 1) bs) n"
    unfolding varint_groups.simps bit_or_iff bit_low7_group ..
  show ?case
  proof (cases "n div 7 = j")
    case True
    then show ?thesis unfolding split Cons.IH by simp
  next
    case False
    have "n div 7 - j = Suc (n div 7 - (j + 1))" if "j + 1 \<le> n div 7"
      using that by arith
    then show ?thesis unfolding split Cons.IH using False by auto
  qed
qed

section \<open>The comparator on built sets\<close>

lemma IsEqual_loop_step:
  assumes "i < length uf1" "i < length uf2"
      and "well_typed_field (uf1 ! i)" "well_typed_field (uf2 ! i)"
      and "\<And>a b. data (uf1 ! i) = Group a \<Longrightarrow> data (uf2 ! i) = Group b \<Longrightarrow> tag (uf1 ! i) = tag (uf2 ! i) \<Longrightarrow>
             upb_UnknownFields_IsEqual a b = Inr (a = b)"
    shows "IsEqual_loop uf1 uf2 i =
             (if uf1 ! i = uf2 ! i then IsEqual_loop uf1 uf2 (i + 1) else Inr False)"
proof (cases "uf1 ! i")
  case f1: (UnknownField t1 d1)
  show ?thesis
  proof (cases "uf2 ! i")
    case f2: (UnknownField t2 d2)
    show ?thesis
    proof (cases "t1 = t2")
      case False
      with assms(1,2) f1 f2 show ?thesis
        by (subst IsEqual_loop.simps) (simp add: Let_def)
    next
      case True
      with assms(3,4) f1 f2 have w: "well_typed_payload (unat (t1 AND 7)) d1"
        "well_typed_payload (unat (t1 AND 7)) d2" by simp_all
      show ?thesis
      proof (cases d1)
        case (Varint a)
        with w True obtain b where "d2 = Varint b" by (cases d2) (auto simp: wire_type_defs)
        with Varint w True assms(1,2) f1 f2 show ?thesis
          by (subst IsEqual_loop.simps) (simp add: Let_def wire_type_defs)
      next
        case (UInt64 a)
        with w True obtain b where "d2 = UInt64 b" by (cases d2) (auto simp: wire_type_defs)
        with UInt64 w True assms(1,2) f1 f2 show ?thesis
          by (subst IsEqual_loop.simps) (simp add: Let_def wire_type_defs)
      next
        case (UInt32 a)
        with w True obtain b where "d2 = UInt32 b" by (cases d2) (auto simp: wire_type_defs)
        with UInt32 w True assms(1,2) f1 f2 show ?thesis
          by (subst IsEqual_loop.simps) (simp add: Let_def wire_type_defs)
      next
        case (Delimited a)
        with w True obtain b where "d2 = Delimited b" by (cases d2) (auto simp: wire_type_defs)
        with Delimited w True assms(1,2) f1 f2 show ?thesis
          by (subst IsEqual_loop.simps) (simp add: Let_def wire_type_defs)
      next
        case (Group a)
        with w True obtain b where b: "d2 = Group b" by (cases d2) (auto simp: wire_type_defs)
        from assms(5)[of a b] Group b f1 f2 True
        have "upb_UnknownFields_IsEqual a b = Inr (a = b)" by simp
        with Group b w True assms(1,2) f1 f2 show ?thesis
          by (subst IsEqual_loop.simps) (simp add: Let_def wire_type_defs)
      qed
    qed
  qed
qed

lemma well_typed_Group:
  "well_typed_field f \<Longrightarrow> data f = Group g \<Longrightarrow> well_typed g"
  by (cases f) (simp add: well_typed_def)

lemma IsEqual_structural:
  "well_typed uf1 \<Longrightarrow> well_typed uf2 \<Longrightarrow>
   upb_UnknownFields_IsEqual uf1 uf2 = Inr (uf1 = uf2)"
proof (induction uf1 arbitrary: uf2 rule: measure_induct_rule[where f = "size_list size"])
  case (less uf1)
  have wt: "well_typed_field (uf1 ! i)" "well_typed_field (uf2 ! i)"
    if "i < length uf1" "length uf1 = length uf2" for i
    using that less.prems by (simp_all add: well_typed_def)
  have grp: "upb_UnknownFields_IsEqual a b = Inr (a = b)"
    if "i < length uf1" "length uf1 = length uf2"
       "data (uf1 ! i) = Group a" "data (uf2 ! i) = Group b" for i a b
  proof -
    from that(1,3) have "size_list size a < size_list size uf1" by (rule size_nth_Group)
    moreover from wt[OF that(1,2)] that(3,4) have "well_typed a" "well_typed b"
      by (auto intro: well_typed_Group)
    ultimately show ?thesis by (rule less.IH)
  qed
  have loop: "IsEqual_loop uf1 uf2 i = Inr (drop i uf1 = drop i uf2)"
    if "length uf1 = length uf2" "i \<le> length uf1" for i
    using that(2)
  proof (induction "length uf1 - i" arbitrary: i)
    case 0
    with that(1) show ?case by (subst IsEqual_loop.simps) simp
  next
    case (Suc n)
    then have i: "i < length uf1" "i < length uf2" using that(1) by simp_all
    from Suc have n: "n = length uf1 - (i + 1)" "i + 1 \<le> length uf1" by simp_all
    have "IsEqual_loop uf1 uf2 i =
            (if uf1 ! i = uf2 ! i then IsEqual_loop uf1 uf2 (i + 1) else Inr False)"
      using i wt[OF i(1) that(1)] grp[OF i(1) that(1)] by (intro IsEqual_loop_step) simp_all
    also have "\<dots> = Inr (uf1 ! i = uf2 ! i \<and> drop (i + 1) uf1 = drop (i + 1) uf2)"
      using Suc.hyps(1)[OF n] by simp
    also have "(uf1 ! i = uf2 ! i \<and> drop (i + 1) uf1 = drop (i + 1) uf2) \<longleftrightarrow>
               drop i uf1 = drop i uf2"
      using i by (simp add: Cons_nth_drop_Suc[symmetric])
    finally show ?case .
  qed
  show ?case
  proof (cases "length uf1 = length uf2")
    case True
    with loop[of 0] show ?thesis by (subst upb_UnknownFields_IsEqual.simps) simp
  next
    case False
    then show ?thesis by (subst upb_UnknownFields_IsEqual.simps) auto
  qed
qed

lemma IsEqual_loop_first_mismatch:
  assumes "length uf1 = length uf2" "i < length uf1"
      and "\<forall>k\<le>i. well_typed_field (uf1 ! k) \<and> well_typed_field (uf2 ! k)"
      and "\<forall>k<i. uf1 ! k = uf2 ! k"
      and "uf1 ! i \<noteq> uf2 ! i"
      and "j \<le> i"
    shows "IsEqual_loop uf1 uf2 j = Inr False"
proof -
  have wt: "well_typed_field (uf1 ! k)" "well_typed_field (uf2 ! k)" if "k \<le> i" for k
    using that assms(3) by simp_all
  have step: "IsEqual_loop uf1 uf2 k =
          (if uf1 ! k = uf2 ! k then IsEqual_loop uf1 uf2 (k + 1) else Inr False)"
    if "k \<le> i" for k
  proof (rule IsEqual_loop_step)
    show "k < length uf1" "k < length uf2" using that assms(1,2) by simp_all
    show "well_typed_field (uf1 ! k)" "well_typed_field (uf2 ! k)" using wt[OF that] .
    fix a b
    assume "data (uf1 ! k) = Group a" "data (uf2 ! k) = Group b"
    then have "well_typed a" "well_typed b"
      using wt[OF that] by (auto intro: well_typed_Group)
    then show "upb_UnknownFields_IsEqual a b = Inr (a = b)" by (rule IsEqual_structural)
  qed
  show ?thesis
    using assms(6)
  proof (induction "i - j" arbitrary: j)
    case 0
    then have "j = i" by simp
    with step[of i] assms(5) show ?case by simp
  next
    case (Suc n)
    then have j: "j < i" "n = i - (j + 1)" "j + 1 \<le> i" by simp_all
    with step[of j] assms(4) Suc.hyps(1)[OF j(2,3)] show ?case by simp
  qed
qed

section \<open>The sort never traps on an allocated scratch block\<close>

lemma tmp_size_loop_ge: "0 < ts \<Longrightarrow> n \<le> tmp_size_loop ts n"
proof (induction ts n rule: tmp_size_loop.induct)
  case (1 ts n)
  then show ?case by (subst tmp_size_loop.simps) auto
qed

lemma tmp_size_loop_literal:
  "0 < ts \<Longrightarrow> tmp_size_loop ts n = (if ts < n then tmp_size_loop (ts * 2) n else ts)"
  by (subst tmp_size_loop.simps) simp

lemma Merge_returns:
  "end' - start \<le> c \<Longrightarrow> \<exists>arr'. upb_UnknownFields_Merge arr start mid end' (Some c) = Inr arr'"
  by (auto simp: upb_UnknownFields_Merge_def Let_def split: prod.splits)

lemma SortRecursive_returns:
  "end' - start \<le> 1 \<or> (\<exists>c. tmp = Some c \<and> end' - start \<le> c) \<Longrightarrow>
   \<exists>arr'. upb_UnknownFields_SortRecursive arr start end' tmp = Inr arr'"
proof (induction arr start end' tmp rule: upb_UnknownFields_SortRecursive.induct)
  case (1 arr start end' tmp)
  show ?case
  proof (cases "end' - start > 1")
    case False
    then show ?thesis by (subst upb_UnknownFields_SortRecursive.simps) simp
  next
    case True
    with "1.prems" obtain c where c: "tmp = Some c" "end' - start \<le> c" by auto
    define mid where "mid = start + (end' - start) div 2"
    from c True have "\<exists>c. tmp = Some c \<and> mid - start \<le> c" by (auto simp: mid_def)
    from "1.IH"(1)[OF True mid_def disjI2[OF this]] obtain arr1 where
      a1: "upb_UnknownFields_SortRecursive arr start mid tmp = Inr arr1" by blast
    from c have "\<exists>c. tmp = Some c \<and> end' - mid \<le> c" by (auto simp: mid_def)
    from "1.IH"(2)[OF True mid_def a1 disjI2[OF this]] obtain arr2 where
      a2: "upb_UnknownFields_SortRecursive arr1 mid end' tmp = Inr arr2" by blast
    from Merge_returns[OF c(2)] obtain arr3 where
      "upb_UnknownFields_Merge arr2 start mid end' (Some c) = Inr arr3" by blast
    with True a1 a2 c show ?thesis
      by (subst upb_UnknownFields_SortRecursive.simps) (simp add: Let_def mid_def[symmetric])
  qed
qed

lemma Sort_returns:
  assumes "never_fails al" "ctx_ok ctx"
  shows "\<exists>ctx' uf'. upb_UnknownFields_Sort al ctx uf = Inr (ctx', uf') \<and> ctx_ok ctx' \<and>
           ctx_end ctx' = ctx_end ctx \<and> ctx_depth ctx' = ctx_depth ctx"
proof (cases "ctx_tmp_size ctx < length uf")
  case True
  define ts where "ts = tmp_size_loop (max 8 (ctx_tmp_size ctx)) (length uf)"
  have "0 < max 8 (ctx_tmp_size ctx)" by simp
  from tmp_size_loop_ge[OF this, of "length uf"] True
  have ts: "length uf \<le> ts" "0 < ts" by (simp_all add: ts_def)
  then obtain arr' where
    "upb_UnknownFields_SortRecursive uf 0 (length uf) (Some ts) = Inr arr'"
    using SortRecursive_returns[of "length uf" 0 "Some ts" uf] by auto
  with True assms ts show ?thesis
    by (simp add: upb_UnknownFields_Sort_def Let_def ts_def[symmetric] never_fails_def ctx_ok_def)
next
  case False
  have "length uf - 0 \<le> 1 \<or> (\<exists>c. ctx_tmp ctx = Some c \<and> length uf - 0 \<le> c)"
    using False assms(2) by (auto simp: ctx_ok_def)
  from SortRecursive_returns[OF this] obtain arr' where
    "upb_UnknownFields_SortRecursive uf 0 (length uf) (ctx_tmp ctx) = Inr arr'" by blast
  with False assms show ?thesis
    by (simp add: upb_UnknownFields_Sort_def Let_def)
qed

section \<open>One iteration of the builder's loop on a well-formed field\<close>

lemma continued_nonempty: "continued v \<Longrightarrow> v \<noteq> []"
  by (cases v) simp_all

lemma is_varint_nonempty: "is_varint v \<Longrightarrow> 0 < length v"
  by (auto simp: is_varint_def dest: continued_nonempty)

lemma ParseVarint_at:
  assumes "is_varint v" "buf = pre @ v @ post" "limit = length buf" "p = length pre"
  shows "upb_UnknownFields_ParseVarint buf p limit = Inr (p + length v, varint_groups 0 v)"
  using ParseVarint_bytes[OF assms(1), of pre limit post] assms(2-) by simp

lemma grow_never_fails:
  "never_fails al \<Longrightarrow>
   (if length arr = cap then upb_UnknownFields_Grow al ctx (length arr) else Inr (ctx, cap)) =
     Inr (grown_ctx ctx (length arr) cap, grown_cap (length arr) cap)"
  by (simp add: upb_UnknownFields_Grow_def never_fails_def grown_ctx_def grown_cap_def Let_def)

lemma grown_ctx_simps [simp]:
  "ctx_end (grown_ctx ctx n cap) = ctx_end ctx"
  "ctx_depth (grown_ctx ctx n cap) = ctx_depth ctx"
  "ctx_tmp (grown_ctx ctx n cap) = ctx_tmp ctx"
  "ctx_tmp_size (grown_ctx ctx n cap) = ctx_tmp_size ctx"
  by (simp_all add: grown_ctx_def)

lemma ctx_ok_grown [simp]: "ctx_ok (grown_ctx ctx n cap) = ctx_ok ctx"
  by (simp add: ctx_ok_def)

lemma loop_varint:
  assumes t: "is_tag UPB_WIRE_TYPE_VARINT t" and v: "is_varint v"
      and al: "never_fails al"
      and buf: "buf = pre @ t @ v @ post" and e: "ctx_end ctx = length buf"
  shows "DoBuild_loop al buf ctx arr cap (length pre) lt s =
         DoBuild_loop al buf (grown_ctx ctx (length arr) cap)
           (arr @ [UnknownField (ucast (varint_groups 0 t)) (Varint (varint_groups 0 v))])
           (grown_cap (length arr) cap) (length pre + length t + length v)
           (ucast (varint_groups 0 t))
           (if varint_groups 0 t < ucast lt then False else s)"
proof -
  from t have tv: "is_varint t" and t32: "varint_groups 0 t \<le> 0xFFFFFFFF"
    and wt: "unat (varint_groups 0 t AND 7) = 0"
    by (simp_all add: is_tag_def wire_type_defs)
  have p1: "upb_UnknownFields_ParseVarint buf (length pre) (ctx_end ctx) =
              Inr (length pre + length t, varint_groups 0 t)"
    using tv buf e by (intro ParseVarint_at[where post = "v @ post"]) simp_all
  have p2: "upb_UnknownFields_ParseVarint buf (length pre + length t) (ctx_end ctx) =
              Inr (length pre + length t + length v, varint_groups 0 v)"
    using v buf e by (intro ParseVarint_at[where pre = "pre @ t" and post = post]) simp_all
  have lt: "length pre < ctx_end ctx"
    using is_varint_nonempty[OF tv] buf e by simp
  show ?thesis
    by (subst DoBuild_loop.simps)
       (simp add: lt p1 p2 t32 wt Let_def wire_type_defs grow_never_fails[OF al])
qed

lemma loop_fixed64:
  assumes t: "is_tag UPB_WIRE_TYPE_64BIT t" and v: "length bs = 8"
      and al: "never_fails al"
      and buf: "buf = pre @ t @ bs @ post" and e: "ctx_end ctx = length buf"
  shows "DoBuild_loop al buf ctx arr cap (length pre) lt s =
         DoBuild_loop al buf (grown_ctx ctx (length arr) cap)
           (arr @ [UnknownField (ucast (varint_groups 0 t)) (UInt64 (load_le bs))])
           (grown_cap (length arr) cap) (length pre + length t + length bs)
           (ucast (varint_groups 0 t))
           (if varint_groups 0 t < ucast lt then False else s)"
proof -
  from t have tv: "is_varint t" and t32: "varint_groups 0 t \<le> 0xFFFFFFFF"
    and wt: "unat (varint_groups 0 t AND 7) = 1"
    by (simp_all add: is_tag_def wire_type_defs)
  have p1: "upb_UnknownFields_ParseVarint buf (length pre) (ctx_end ctx) =
              Inr (length pre + length t, varint_groups 0 t)"
    using tv buf e by (intro ParseVarint_at[where post = "bs @ post"]) simp_all
  have lt: "length pre < ctx_end ctx"
    using is_varint_nonempty[OF tv] buf e by simp
  have b: "8 \<le> ctx_end ctx - (length pre + length t)" "length pre + length t + 8 \<le> length buf"
    "take 8 (drop (length pre + length t) buf) = bs"
    using buf e v by simp_all
  show ?thesis
    by (subst DoBuild_loop.simps)
       (simp add: lt p1 t32 wt b v Let_def wire_type_defs grow_never_fails[OF al])
qed

lemma loop_fixed32:
  assumes t: "is_tag UPB_WIRE_TYPE_32BIT t" and v: "length bs = 4"
      and al: "never_fails al"
      and buf: "buf = pre @ t @ bs @ post" and e: "ctx_end ctx = length buf"
  shows "DoBuild_loop al buf ctx arr cap (length pre) lt s =
         DoBuild_loop al buf (grown_ctx ctx (length arr) cap)
           (arr @ [UnknownField (ucast (varint_groups 0 t)) (UInt32 (load_le bs))])
           (grown_cap (length arr) cap) (length pre + length t + length bs)
           (ucast (varint_groups 0 t))
           (if varint_groups 0 t < ucast lt then False else s)"
proof -
  from t have tv: "is_varint t" and t32: "varint_groups 0 t \<le> 0xFFFFFFFF"
    and wt: "unat (varint_groups 0 t AND 7) = 5"
    by (simp_all add: is_tag_def wire_type_defs)
  have p1: "upb_UnknownFields_ParseVarint buf (length pre) (ctx_end ctx) =
              Inr (length pre + length t, varint_groups 0 t)"
    using tv buf e by (intro ParseVarint_at[where post = "bs @ post"]) simp_all
  have lt: "length pre < ctx_end ctx"
    using is_varint_nonempty[OF tv] buf e by simp
  have b: "4 \<le> ctx_end ctx - (length pre + length t)" "length pre + length t + 4 \<le> length buf"
    "take 4 (drop (length pre + length t) buf) = bs"
    using buf e v by simp_all
  show ?thesis
    by (subst DoBuild_loop.simps)
       (simp add: lt p1 t32 wt b v Let_def wire_type_defs grow_never_fails[OF al])
qed

lemma loop_delimited:
  assumes t: "is_tag UPB_WIRE_TYPE_DELIMITED t" and l: "is_varint l"
      and v: "unat (varint_groups 0 l) = length bs"
      and al: "never_fails al"
      and buf: "buf = pre @ t @ l @ bs @ post" and e: "ctx_end ctx = length buf"
  shows "DoBuild_loop al buf ctx arr cap (length pre) lt s =
         DoBuild_loop al buf (grown_ctx ctx (length arr) cap)
           (arr @ [UnknownField (ucast (varint_groups 0 t)) (Delimited bs)])
           (grown_cap (length arr) cap) (length pre + length t + length l + length bs)
           (ucast (varint_groups 0 t))
           (if varint_groups 0 t < ucast lt then False else s)"
proof -
  from t have tv: "is_varint t" and t32: "varint_groups 0 t \<le> 0xFFFFFFFF"
    and wt: "unat (varint_groups 0 t AND 7) = 2"
    by (simp_all add: is_tag_def wire_type_defs)
  have p1: "upb_UnknownFields_ParseVarint buf (length pre) (ctx_end ctx) =
              Inr (length pre + length t, varint_groups 0 t)"
    using tv buf e by (intro ParseVarint_at[where post = "l @ bs @ post"]) simp_all
  have p2: "upb_UnknownFields_ParseVarint buf (length pre + length t) (ctx_end ctx) =
              Inr (length pre + length t + length l, varint_groups 0 l)"
    using l buf e by (intro ParseVarint_at[where pre = "pre @ t" and post = "bs @ post"]) simp_all
  have lt: "length pre < ctx_end ctx"
    using is_varint_nonempty[OF tv] buf e by simp
  have b: "length bs \<le> ctx_end ctx - (length pre + length t + length l)"
    "length pre + length t + length l + length bs \<le> length buf"
    "take (length bs) (drop (length pre + length t + length l) buf) = bs"
    using buf e by simp_all
  show ?thesis
    by (subst DoBuild_loop.simps)
       (simp add: lt p1 p2 t32 wt b v Let_def wire_type_defs grow_never_fails[OF al])
qed

lemma loop_end_group:
  assumes t: "is_tag UPB_WIRE_TYPE_END_GROUP t"
      and buf: "buf = pre @ t @ post" and e: "ctx_end ctx = length buf"
  shows "DoBuild_loop al buf ctx arr cap (length pre) lt s =
         Inr (ctx, arr, cap, length pre + length t, s)"
proof -
  from t have tv: "is_varint t" and t32: "varint_groups 0 t \<le> 0xFFFFFFFF"
    and wt: "unat (varint_groups 0 t AND 7) = 4"
    by (simp_all add: is_tag_def wire_type_defs)
  have p1: "upb_UnknownFields_ParseVarint buf (length pre) (ctx_end ctx) =
              Inr (length pre + length t, varint_groups 0 t)"
    using tv buf e by (intro ParseVarint_at[where post = post]) simp_all
  have lt: "length pre < ctx_end ctx"
    using is_varint_nonempty[OF tv] buf e by simp
  show ?thesis
    by (subst DoBuild_loop.simps) (simp add: lt p1 t32 wt Let_def wire_type_defs)
qed

lemma loop_at_end:
  "ctx_end ctx \<le> p \<Longrightarrow> DoBuild_loop al buf ctx arr cap p lt s = Inr (ctx, arr, cap, p, s)"
  by (subst DoBuild_loop.simps) simp

lemma loop_start_group:
  assumes t: "is_tag UPB_WIRE_TYPE_START_GROUP t"
      and al: "never_fails al"
      and buf: "buf = pre @ t @ post" and e: "ctx_end ctx = length buf"
  shows "DoBuild_loop al buf ctx arr cap (length pre) lt s =
         (if ctx_depth ctx - 1 = 0
          then Inl (Longjmp kUpb_UnknownCompareResult_MaxDepthExceeded)
          else
            case upb_UnknownFields_DoBuild al buf
                   ((grown_ctx ctx (length arr) cap)\<lparr>ctx_depth := ctx_depth ctx - 1\<rparr>)
                   (length pre + length t) of
              Inl e \<Rightarrow> Inl e
            | Inr (ctx3, ptr2, grp) \<Rightarrow>
                DoBuild_loop al buf (ctx3\<lparr>ctx_depth := ctx_depth ctx3 + 1\<rparr>)
                  (arr @ [UnknownField (ucast (varint_groups 0 t)) (Group grp)])
                  (grown_cap (length arr) cap) ptr2
                  (ucast (varint_groups 0 t))
                  (if varint_groups 0 t < ucast lt then False else s))"
proof -
  from t have tv: "is_varint t" and t32: "varint_groups 0 t \<le> 0xFFFFFFFF"
    and wt: "unat (varint_groups 0 t AND 7) = 3"
    by (simp_all add: is_tag_def wire_type_defs)
  have p1: "upb_UnknownFields_ParseVarint buf (length pre) (ctx_end ctx) =
              Inr (length pre + length t, varint_groups 0 t)"
    using tv buf e by (intro ParseVarint_at[where post = post]) simp_all
  have lt: "length pre < ctx_end ctx"
    using is_varint_nonempty[OF tv] buf e by simp
  show ?thesis
    by (subst DoBuild_loop.simps)
       (simp add: lt p1 t32 wt Let_def wire_type_defs grow_never_fails[OF al])
qed

section \<open>The builder on well-formed buffers\<close>

lemma depth_minus_1:
  fixes d :: "32 word"
  assumes "1 \<le> sint d"
  shows "sint (d - 1) = sint d - 1" and "d - 1 = 0 \<longleftrightarrow> sint d = 1"
proof -
  have "sint d < 2 ^ 31" using sint_lt[of d] by simp
  with assms show "sint (d - 1) = sint d - 1"
    by (simp add: sint_word_ariths signed_take_bit_int_eq_self)
  have "d - 1 = 0 \<longleftrightarrow> d = 1" by simp
  also have "d = 1 \<longleftrightarrow> sint d = sint (1 :: 32 word)"
    by (simp only: word_eq_iff_signed)
  finally show "d - 1 = 0 \<longleftrightarrow> sint d = 1" by simp
qed

lemma depth_restored: "(d :: 32 word) - 1 + 1 = d"
  by simp

lemma room_step:
  fixes d :: "32 word"
  assumes "d - 1 \<noteq> 0"
  shows "unat (d - 1 - 1) = unat (d - 1) - 1"
  using assms by (rule unat_minus_one)

lemma passesI:
  "DoBuild_loop al buf ctx arr cap p lt s = DoBuild_loop al buf ctx' arr' cap' p' lt' s' \<Longrightarrow>
   ctx_ok ctx' \<Longrightarrow> ctx_end ctx' = ctx_end ctx \<Longrightarrow> ctx_depth ctx' = ctx_depth ctx \<Longrightarrow>
   passes al buf ctx arr cap p lt s p'"
  unfolding passes_def by blast

lemma passesE:
  assumes "passes al buf ctx arr cap p lt s p'"
  obtains ctx' arr' cap' lt' s' where
    "DoBuild_loop al buf ctx arr cap p lt s = DoBuild_loop al buf ctx' arr' cap' p' lt' s'"
    "ctx_ok ctx'" "ctx_end ctx' = ctx_end ctx" "ctx_depth ctx' = ctx_depth ctx"
  using assms unfolding passes_def by blast

lemma steps_overI:
  assumes "\<And>pre post ctx arr cap lt s.
      ctx_ok ctx \<Longrightarrow> ctx_end ctx = length (pre @ bs @ post) \<Longrightarrow>
      n \<le> unat (ctx_depth ctx - 1) \<Longrightarrow>
      passes al (pre @ bs @ post) ctx arr cap (length pre) lt s (length pre + length bs)"
    and "\<And>pre post ctx arr cap lt s.
      ctx_ok ctx \<Longrightarrow> ctx_end ctx = length (pre @ bs @ post) \<Longrightarrow>
      \<not> n \<le> unat (ctx_depth ctx - 1) \<Longrightarrow>
      DoBuild_loop al (pre @ bs @ post) ctx arr cap (length pre) lt s =
        Inl (Longjmp kUpb_UnknownCompareResult_MaxDepthExceeded)"
  shows "steps_over al bs n"
  unfolding steps_over_def
proof (intro allI impI)
  fix pre post ctx arr cap lt s
  assume "ctx_ok ctx" "ctx_end ctx = length (pre @ bs @ post)"
  note h = this
  show "if n \<le> unat (ctx_depth ctx - 1)
        then passes al (pre @ bs @ post) ctx arr cap (length pre) lt s (length pre + length bs)
        else DoBuild_loop al (pre @ bs @ post) ctx arr cap (length pre) lt s =
               Inl (Longjmp kUpb_UnknownCompareResult_MaxDepthExceeded)"
  proof (cases "n \<le> unat (ctx_depth ctx - 1)")
    case True
    from assms(1)[OF h True, of arr cap lt s] True show ?thesis by (simp only: if_True)
  next
    case False
    from assms(2)[OF h False, of arr cap lt s] False show ?thesis by (simp only: if_False)
  qed
qed

lemma steps_over_pass:
  assumes "steps_over al bs n" "ctx_ok ctx" "ctx_end ctx = length (pre @ bs @ post)"
      and "n \<le> unat (ctx_depth ctx - 1)"
  shows "passes al (pre @ bs @ post) ctx arr cap (length pre) lt s (length pre + length bs)"
  using assms(1)[unfolded steps_over_def, rule_format, OF assms(2,3), of arr cap lt s] assms(4)
  by (simp only: if_True)

lemma steps_over_abort:
  assumes "steps_over al bs n" "ctx_ok ctx" "ctx_end ctx = length (pre @ bs @ post)"
      and "\<not> n \<le> unat (ctx_depth ctx - 1)"
  shows "DoBuild_loop al (pre @ bs @ post) ctx arr cap (length pre) lt s =
           Inl (Longjmp kUpb_UnknownCompareResult_MaxDepthExceeded)"
  using assms(1)[unfolded steps_over_def, rule_format, OF assms(2,3), of arr cap lt s] assms(4)
  by (simp only: if_False)

lemma steps_over_nil: "steps_over al [] 0"
proof (rule steps_overI)
  fix pre post :: "byte list" and ctx arr cap lt s
  assume "ctx_ok ctx"
  then show "passes al (pre @ [] @ post) ctx arr cap (length pre) lt s (length pre + length ([] :: byte list))"
    by (intro passesI[where ctx' = ctx and arr' = arr and cap' = cap and lt' = lt and s' = s]) simp_all
next
  fix ctx :: upb_UnknownField_Context
  assume "\<not> 0 \<le> unat (ctx_depth ctx - 1)"
  then have False by simp
  then show "DoBuild_loop al (pre @ [] @ post) ctx arr cap (length pre) lt s =
        Inl (Longjmp kUpb_UnknownCompareResult_MaxDepthExceeded)" for pre post arr cap lt s ..
qed

lemma steps_over_append:
  assumes 1: "steps_over al b1 n1" and 2: "steps_over al b2 n2"
  shows "steps_over al (b1 @ b2) (max n1 n2)"
proof (rule steps_overI)
  fix pre post ctx arr cap lt s
  assume ok: "ctx_ok ctx" and e: "ctx_end ctx = length (pre @ (b1 @ b2) @ post)"
  have buf: "pre @ (b1 @ b2) @ post = pre @ b1 @ (b2 @ post)"
    "pre @ b1 @ (b2 @ post) = (pre @ b1) @ b2 @ post" by simp_all
  have e1: "ctx_end ctx = length (pre @ b1 @ (b2 @ post))" using e by simp
  {
    assume n: "max n1 n2 \<le> unat (ctx_depth ctx - 1)"
    then have n1: "n1 \<le> unat (ctx_depth ctx - 1)" and n2: "n2 \<le> unat (ctx_depth ctx - 1)"
      by simp_all
    from steps_over_pass[OF 1 ok e1 n1, of arr cap lt s]
    obtain ctx1 arr1 cap1 lt1 s1 where
      a: "DoBuild_loop al (pre @ b1 @ (b2 @ post)) ctx arr cap (length pre) lt s =
            DoBuild_loop al (pre @ b1 @ (b2 @ post)) ctx1 arr1 cap1 (length pre + length b1) lt1 s1"
      and ok1: "ctx_ok ctx1" and c1: "ctx_end ctx1 = ctx_end ctx"
      and d1: "ctx_depth ctx1 = ctx_depth ctx"
      by (rule passesE)
    have e2: "ctx_end ctx1 = length ((pre @ b1) @ b2 @ post)" using c1 e by simp
    from d1 n2 have d2: "n2 \<le> unat (ctx_depth ctx1 - 1)" by simp
    from steps_over_pass[OF 2 ok1 e2 d2, of arr1 cap1 lt1 s1]
    obtain ctx2 arr2 cap2 lt2 s2 where
      b: "DoBuild_loop al ((pre @ b1) @ b2 @ post) ctx1 arr1 cap1 (length (pre @ b1)) lt1 s1 =
            DoBuild_loop al ((pre @ b1) @ b2 @ post) ctx2 arr2 cap2
              (length (pre @ b1) + length b2) lt2 s2"
      and ok2: "ctx_ok ctx2" and c2: "ctx_end ctx2 = ctx_end ctx1"
      and d2: "ctx_depth ctx2 = ctx_depth ctx1"
      by (rule passesE)
    show "passes al (pre @ (b1 @ b2) @ post) ctx arr cap (length pre) lt s
            (length pre + length (b1 @ b2))"
    proof (rule passesI)
      show "DoBuild_loop al (pre @ (b1 @ b2) @ post) ctx arr cap (length pre) lt s =
            DoBuild_loop al (pre @ (b1 @ b2) @ post) ctx2 arr2 cap2
              (length pre + length (b1 @ b2)) lt2 s2"
        using a b by (simp add: add.assoc)
      show "ctx_ok ctx2" by (rule ok2)
      show "ctx_end ctx2 = ctx_end ctx" using c1 c2 by simp
      show "ctx_depth ctx2 = ctx_depth ctx" using d1 d2 by simp
    qed
  next
    assume n: "\<not> max n1 n2 \<le> unat (ctx_depth ctx - 1)"
    show "DoBuild_loop al (pre @ (b1 @ b2) @ post) ctx arr cap (length pre) lt s =
            Inl (Longjmp kUpb_UnknownCompareResult_MaxDepthExceeded)"
    proof (cases "n1 \<le> unat (ctx_depth ctx - 1)")
      case False
      from steps_over_abort[OF 1 ok e1 False, of arr cap lt s]
      show ?thesis by simp
    next
      case True
      with n have n2: "\<not> n2 \<le> unat (ctx_depth ctx - 1)" by simp
      from steps_over_pass[OF 1 ok e1 True, of arr cap lt s]
      obtain ctx1 arr1 cap1 lt1 s1 where
        a: "DoBuild_loop al (pre @ b1 @ (b2 @ post)) ctx arr cap (length pre) lt s =
              DoBuild_loop al (pre @ b1 @ (b2 @ post)) ctx1 arr1 cap1 (length pre + length b1) lt1 s1"
        and ok1: "ctx_ok ctx1" and c1: "ctx_end ctx1 = ctx_end ctx"
        and d1: "ctx_depth ctx1 = ctx_depth ctx"
        by (rule passesE)
      have e2: "ctx_end ctx1 = length ((pre @ b1) @ b2 @ post)" using c1 e by simp
      from d1 n2 have d2: "\<not> n2 \<le> unat (ctx_depth ctx1 - 1)"
        by simp
      from steps_over_abort[OF 2 ok1 e2 d2, of arr1 cap1 lt1 s1] a
      show ?thesis by simp
    qed
  }
qed

lemma steps_over_scalar:
  assumes step: "\<And>pre post ctx arr cap lt s.
      ctx_end ctx = length (pre @ bs @ post) \<Longrightarrow>
      \<exists>arr' lt' s'.
        DoBuild_loop al (pre @ bs @ post) ctx arr cap (length pre) lt s =
        DoBuild_loop al (pre @ bs @ post) (grown_ctx ctx (length arr) cap) arr'
          (grown_cap (length arr) cap) (length pre + length bs) lt' s'"
  shows "steps_over al bs 0"
proof (rule steps_overI)
  fix pre post ctx arr cap lt s
  assume ok: "ctx_ok ctx" and e: "ctx_end ctx = length (pre @ bs @ post)"
  from step[OF e, of arr cap lt s] obtain arr' lt' s' where
    "DoBuild_loop al (pre @ bs @ post) ctx arr cap (length pre) lt s =
     DoBuild_loop al (pre @ bs @ post) (grown_ctx ctx (length arr) cap) arr'
       (grown_cap (length arr) cap) (length pre + length bs) lt' s'" by blast
  then show "passes al (pre @ bs @ post) ctx arr cap (length pre) lt s (length pre + length bs)"
    by (rule passesI) (simp_all add: ok)
next
  fix ctx :: upb_UnknownField_Context
  assume "\<not> 0 \<le> unat (ctx_depth ctx - 1)"
  then have False by simp
  then show "DoBuild_loop al (pre @ bs @ post) ctx arr cap (length pre) lt s =
        Inl (Longjmp kUpb_UnknownCompareResult_MaxDepthExceeded)" for pre post arr cap lt s ..
qed

lemma steps_over_varint:
  assumes "is_tag UPB_WIRE_TYPE_VARINT t" "is_varint v" "never_fails al"
  shows "steps_over al (t @ v) 0"
proof (rule steps_over_scalar)
  fix pre post arr cap lt s and ctx :: upb_UnknownField_Context
  assume "ctx_end ctx = length (pre @ (t @ v) @ post)"
  with loop_varint[OF assms, of "pre @ (t @ v) @ post" pre post ctx arr cap lt s]
  show "\<exists>arr' lt' s'.
        DoBuild_loop al (pre @ (t @ v) @ post) ctx arr cap (length pre) lt s =
        DoBuild_loop al (pre @ (t @ v) @ post) (grown_ctx ctx (length arr) cap) arr'
          (grown_cap (length arr) cap) (length pre + length (t @ v)) lt' s'"
    by (simp add: add.assoc) blast
qed

lemma steps_over_fixed64:
  assumes "is_tag UPB_WIRE_TYPE_64BIT t" "length bs = 8" "never_fails al"
  shows "steps_over al (t @ bs) 0"
proof (rule steps_over_scalar)
  fix pre post arr cap lt s and ctx :: upb_UnknownField_Context
  assume "ctx_end ctx = length (pre @ (t @ bs) @ post)"
  with loop_fixed64[OF assms, of "pre @ (t @ bs) @ post" pre post ctx arr cap lt s]
  show "\<exists>arr' lt' s'.
        DoBuild_loop al (pre @ (t @ bs) @ post) ctx arr cap (length pre) lt s =
        DoBuild_loop al (pre @ (t @ bs) @ post) (grown_ctx ctx (length arr) cap) arr'
          (grown_cap (length arr) cap) (length pre + length (t @ bs)) lt' s'"
    by (simp add: add.assoc) blast
qed

lemma steps_over_fixed32:
  assumes "is_tag UPB_WIRE_TYPE_32BIT t" "length bs = 4" "never_fails al"
  shows "steps_over al (t @ bs) 0"
proof (rule steps_over_scalar)
  fix pre post arr cap lt s and ctx :: upb_UnknownField_Context
  assume "ctx_end ctx = length (pre @ (t @ bs) @ post)"
  with loop_fixed32[OF assms, of "pre @ (t @ bs) @ post" pre post ctx arr cap lt s]
  show "\<exists>arr' lt' s'.
        DoBuild_loop al (pre @ (t @ bs) @ post) ctx arr cap (length pre) lt s =
        DoBuild_loop al (pre @ (t @ bs) @ post) (grown_ctx ctx (length arr) cap) arr'
          (grown_cap (length arr) cap) (length pre + length (t @ bs)) lt' s'"
    by (simp add: add.assoc) blast
qed

lemma steps_over_delimited:
  assumes "is_tag UPB_WIRE_TYPE_DELIMITED t" "is_varint l"
    "unat (varint_groups 0 l) = length bs" "never_fails al"
  shows "steps_over al (t @ l @ bs) 0"
proof (rule steps_over_scalar)
  fix pre post arr cap lt s and ctx :: upb_UnknownField_Context
  assume "ctx_end ctx = length (pre @ (t @ l @ bs) @ post)"
  with loop_delimited[OF assms, of "pre @ (t @ l @ bs) @ post" pre post ctx arr cap lt s]
  show "\<exists>arr' lt' s'.
        DoBuild_loop al (pre @ (t @ l @ bs) @ post) ctx arr cap (length pre) lt s =
        DoBuild_loop al (pre @ (t @ l @ bs) @ post) (grown_ctx ctx (length arr) cap) arr'
          (grown_cap (length arr) cap) (length pre + length (t @ l @ bs)) lt' s'"
    by (simp add: add.assoc) blast
qed

lemma ctx_ok_arena [simp]: "ctx_ok (ctx\<lparr>ctx_arena := a\<rparr>) = ctx_ok ctx"
  by (simp add: ctx_ok_def)

lemma ctx_ok_depth [simp]: "ctx_ok (ctx\<lparr>ctx_depth := d\<rparr>) = ctx_ok ctx"
  by (simp add: ctx_ok_def)

lemma ctx_ok_end [simp]: "ctx_ok (ctx\<lparr>ctx_end := e\<rparr>) = ctx_ok ctx"
  by (simp add: ctx_ok_def)

text \<open>The builder after its loop: the arena request and the sort.\<close>

lemma DoBuild_finish:
  assumes loop: "DoBuild_loop al buf ctx [] 0 p 0 True = Inr (ctx1, arr1, cap1, p', s1)"
      and al: "never_fails al" and ok: "ctx_ok ctx1"
  shows "\<exists>ctx' grp. upb_UnknownFields_DoBuild al buf ctx p = Inr (ctx', p', grp) \<and>
           ctx_ok ctx' \<and> ctx_end ctx' = ctx_end ctx1 \<and> ctx_depth ctx' = ctx_depth ctx1"
proof (cases s1)
  case True
  with loop al ok show ?thesis
    by (subst upb_UnknownFields_DoBuild.simps) (simp add: never_fails_def)
next
  case False
  from Sort_returns[OF al, of "ctx1\<lparr>ctx_arena := ctx_arena ctx1 + 1\<rparr>" arr1] ok
  obtain ctx3 ret where
    "upb_UnknownFields_Sort al (ctx1\<lparr>ctx_arena := ctx_arena ctx1 + 1\<rparr>) arr1 = Inr (ctx3, ret)"
    "ctx_ok ctx3" "ctx_end ctx3 = ctx_end ctx1" "ctx_depth ctx3 = ctx_depth ctx1"
    by auto
  with False loop al show ?thesis
    by (subst upb_UnknownFields_DoBuild.simps) (simp add: never_fails_def)
qed

lemma DoBuild_abort:
  "DoBuild_loop al buf ctx [] 0 p 0 True = Inl e \<Longrightarrow>
   upb_UnknownFields_DoBuild al buf ctx p = Inl e"
  by (subst upb_UnknownFields_DoBuild.simps) simp

text \<open>The builder on the contents of a group, up to and including the end tag.\<close>

lemma DoBuild_contents_pass:
  assumes so: "steps_over al bs n" and e: "is_tag UPB_WIRE_TYPE_END_GROUP e"
      and al: "never_fails al" and ok: "ctx_ok ctx"
      and ce: "ctx_end ctx = length (pre @ bs @ e @ post)"
      and n: "n \<le> unat (ctx_depth ctx - 1)"
  shows "\<exists>ctx' grp.
           upb_UnknownFields_DoBuild al (pre @ bs @ e @ post) ctx (length pre) =
             Inr (ctx', length pre + length bs + length e, grp) \<and>
           ctx_ok ctx' \<and> ctx_end ctx' = ctx_end ctx \<and> ctx_depth ctx' = ctx_depth ctx"
proof -
  from steps_over_pass[OF so ok ce n, of "[]" 0 0 True]
  obtain ctx1 arr1 cap1 lt1 s1 where
    a: "DoBuild_loop al (pre @ bs @ e @ post) ctx [] 0 (length pre) 0 True =
          DoBuild_loop al (pre @ bs @ e @ post) ctx1 arr1 cap1 (length pre + length bs) lt1 s1"
    and ok1: "ctx_ok ctx1" and c1: "ctx_end ctx1 = ctx_end ctx"
    and d1: "ctx_depth ctx1 = ctx_depth ctx"
    by (rule passesE)
  have "DoBuild_loop al (pre @ bs @ e @ post) ctx1 arr1 cap1 (length (pre @ bs)) lt1 s1 =
          Inr (ctx1, arr1, cap1, length (pre @ bs) + length e, s1)"
    using c1 ce by (intro loop_end_group[OF e, where post = post]) simp_all
  with a have "DoBuild_loop al (pre @ bs @ e @ post) ctx [] 0 (length pre) 0 True =
                 Inr (ctx1, arr1, cap1, length pre + length bs + length e, s1)"
    by simp
  from DoBuild_finish[OF this al ok1] c1 d1 show ?thesis by auto
qed

lemma DoBuild_contents_abort:
  assumes so: "steps_over al bs n" and ok: "ctx_ok ctx"
      and ce: "ctx_end ctx = length (pre @ bs @ post)"
      and n: "\<not> n \<le> unat (ctx_depth ctx - 1)"
  shows "upb_UnknownFields_DoBuild al (pre @ bs @ post) ctx (length pre) =
           Inl (Longjmp kUpb_UnknownCompareResult_MaxDepthExceeded)"
  using steps_over_abort[OF so ok ce n, of "[]" 0 0 True] by (rule DoBuild_abort)

text \<open>The builder on a whole buffer.\<close>

lemma DoBuild_top_pass:
  assumes so: "steps_over al bs n"
      and al: "never_fails al" and ok: "ctx_ok ctx"
      and ce: "ctx_end ctx = length bs"
      and n: "n \<le> unat (ctx_depth ctx - 1)"
  shows "\<exists>ctx' grp.
           upb_UnknownFields_DoBuild al bs ctx 0 = Inr (ctx', length bs, grp) \<and>
           ctx_ok ctx' \<and> ctx_end ctx' = ctx_end ctx \<and> ctx_depth ctx' = ctx_depth ctx"
proof -
  from ce have ce': "ctx_end ctx = length ([] @ bs @ [])" by simp
  from steps_over_pass[OF so ok ce' n, of "[]" 0 0 True]
  obtain ctx1 arr1 cap1 lt1 s1 where
    a: "DoBuild_loop al ([] @ bs @ []) ctx [] 0 (length ([] :: byte list)) 0 True =
          DoBuild_loop al ([] @ bs @ []) ctx1 arr1 cap1 (length ([] :: byte list) + length bs) lt1 s1"
    and ok1: "ctx_ok ctx1" and c1: "ctx_end ctx1 = ctx_end ctx"
    and d1: "ctx_depth ctx1 = ctx_depth ctx"
    by (rule passesE)
  have "DoBuild_loop al bs ctx1 arr1 cap1 (length bs) lt1 s1 =
          Inr (ctx1, arr1, cap1, length bs, s1)"
    using c1 ce by (intro loop_at_end) simp
  with a have "DoBuild_loop al bs ctx [] 0 0 0 True = Inr (ctx1, arr1, cap1, length bs, s1)"
    by simp
  from DoBuild_finish[OF this al ok1] c1 d1 show ?thesis by auto
qed

lemma DoBuild_top_abort:
  assumes so: "steps_over al bs n" and ok: "ctx_ok ctx"
      and ce: "ctx_end ctx = length bs"
      and n: "\<not> n \<le> unat (ctx_depth ctx - 1)"
  shows "upb_UnknownFields_DoBuild al bs ctx 0 =
           Inl (Longjmp kUpb_UnknownCompareResult_MaxDepthExceeded)"
  using DoBuild_contents_abort[OF so ok _ n, of "[]" "[]"] ce by simp

text \<open>
  A group: the start tag takes one unit of the budget, the nested builder
  runs on the contents and the end tag, and the unit is given back.
\<close>

lemma group_pass:
  assumes t: "is_tag UPB_WIRE_TYPE_START_GROUP t" and e: "is_tag UPB_WIRE_TYPE_END_GROUP e"
      and so: "steps_over al bs n" and al: "never_fails al"
      and ok: "ctx_ok ctx" and ce: "ctx_end ctx = length (pre @ (t @ bs @ e) @ post)"
      and n: "Suc n \<le> unat (ctx_depth ctx - 1)"
  shows "\<exists>ctx3 grp.
           upb_UnknownFields_DoBuild al (pre @ (t @ bs @ e) @ post)
             ((grown_ctx ctx (length arr) cap)\<lparr>ctx_depth := ctx_depth ctx - 1\<rparr>)
             (length pre + length t) =
             Inr (ctx3, length pre + length t + length bs + length e, grp) \<and>
           DoBuild_loop al (pre @ (t @ bs @ e) @ post) ctx arr cap (length pre) lt s =
             DoBuild_loop al (pre @ (t @ bs @ e) @ post) (ctx3\<lparr>ctx_depth := ctx_depth ctx3 + 1\<rparr>)
               (arr @ [UnknownField (ucast (varint_groups 0 t)) (Group grp)])
               (grown_cap (length arr) cap) (length pre + length t + length bs + length e)
               (ucast (varint_groups 0 t))
               (if varint_groups 0 t < ucast lt then False else s) \<and>
           ctx_ok ctx3 \<and> ctx_end ctx3 = ctx_end ctx \<and> ctx_depth ctx3 + 1 = ctx_depth ctx"
proof -
  let ?buf = "pre @ (t @ bs @ e) @ post"
  let ?c2 = "(grown_ctx ctx (length arr) cap)\<lparr>ctx_depth := ctx_depth ctx - 1\<rparr>"
  have nz: "ctx_depth ctx - 1 \<noteq> 0"
  proof
    assume "ctx_depth ctx - 1 = 0"
    then have "unat (ctx_depth ctx - 1) = 0" by (simp only: unat_eq_0)
    with n show False by simp
  qed
  from room_step[OF nz] n have d2: "n \<le> unat (ctx_depth ctx - 1 - 1)" by simp
  have buf: "?buf = (pre @ t) @ bs @ e @ post" by simp
  have "\<exists>ctx' grp.
          upb_UnknownFields_DoBuild al ((pre @ t) @ bs @ e @ post) ?c2 (length (pre @ t)) =
            Inr (ctx', length (pre @ t) + length bs + length e, grp) \<and>
          ctx_ok ctx' \<and> ctx_end ctx' = ctx_end ?c2 \<and> ctx_depth ctx' = ctx_depth ?c2"
    using ok ce d2 by (intro DoBuild_contents_pass[OF so e al]) simp_all
  then obtain ctx3 grp where
    b: "upb_UnknownFields_DoBuild al ?buf ?c2 (length pre + length t) =
          Inr (ctx3, length pre + length t + length bs + length e, grp)"
    and ok3: "ctx_ok ctx3" and c3: "ctx_end ctx3 = ctx_end ctx"
    and d3: "ctx_depth ctx3 = ctx_depth ctx - 1"
    by auto
  have "DoBuild_loop al ?buf ctx arr cap (length pre) lt s =
          DoBuild_loop al ?buf (ctx3\<lparr>ctx_depth := ctx_depth ctx3 + 1\<rparr>)
            (arr @ [UnknownField (ucast (varint_groups 0 t)) (Group grp)])
            (grown_cap (length arr) cap) (length pre + length t + length bs + length e)
            (ucast (varint_groups 0 t))
            (if varint_groups 0 t < ucast lt then False else s)"
    using loop_start_group[OF t al, of ?buf pre "bs @ e @ post" ctx arr cap lt s] ce nz b
    by simp
  with b ok3 c3 d3 show ?thesis by simp
qed

lemma group_abort:
  assumes t: "is_tag UPB_WIRE_TYPE_START_GROUP t"
      and so: "steps_over al bs n" and al: "never_fails al"
      and ok: "ctx_ok ctx" and ce: "ctx_end ctx = length (pre @ (t @ bs @ e) @ post)"
      and n: "\<not> Suc n \<le> unat (ctx_depth ctx - 1)"
  shows "DoBuild_loop al (pre @ (t @ bs @ e) @ post) ctx arr cap (length pre) lt s =
           Inl (Longjmp kUpb_UnknownCompareResult_MaxDepthExceeded)"
proof (cases "ctx_depth ctx - 1 = 0")
  case True
  with ce show ?thesis
    using loop_start_group[OF t al, of "pre @ (t @ bs @ e) @ post" pre "bs @ e @ post" ctx arr cap lt s]
    by simp
next
  case False
  let ?buf = "pre @ (t @ bs @ e) @ post"
  let ?c2 = "(grown_ctx ctx (length arr) cap)\<lparr>ctx_depth := ctx_depth ctx - 1\<rparr>"
  from False have "unat (ctx_depth ctx - 1) \<noteq> 0" unfolding unat_eq_0 .
  with room_step[OF False] n have d2: "\<not> n \<le> unat (ctx_depth ctx - 1 - 1)" by simp
  have "upb_UnknownFields_DoBuild al ((pre @ t) @ bs @ (e @ post)) ?c2 (length (pre @ t)) =
          Inl (Longjmp kUpb_UnknownCompareResult_MaxDepthExceeded)"
    using ok ce d2 by (intro DoBuild_contents_abort[OF so]) simp_all
  then have b: "upb_UnknownFields_DoBuild al ?buf ?c2 (length pre + length t) =
          Inl (Longjmp kUpb_UnknownCompareResult_MaxDepthExceeded)" by simp
  from ce False b show ?thesis
    using loop_start_group[OF t al, of ?buf pre "bs @ e @ post" ctx arr cap lt s]
    by simp
qed

lemma steps_over_group:
  assumes t: "is_tag UPB_WIRE_TYPE_START_GROUP t" and e: "is_tag UPB_WIRE_TYPE_END_GROUP e"
      and so: "steps_over al bs n" and al: "never_fails al"
  shows "steps_over al (t @ bs @ e) (Suc n)"
proof (rule steps_overI)
  fix pre post arr cap lt s and ctx :: upb_UnknownField_Context
  assume ok: "ctx_ok ctx" and ce: "ctx_end ctx = length (pre @ (t @ bs @ e) @ post)"
  {
    assume n: "Suc n \<le> unat (ctx_depth ctx - 1)"
    from group_pass[OF t e so al ok ce n, of arr cap lt s]
    obtain ctx3 grp where
      a: "DoBuild_loop al (pre @ (t @ bs @ e) @ post) ctx arr cap (length pre) lt s =
            DoBuild_loop al (pre @ (t @ bs @ e) @ post) (ctx3\<lparr>ctx_depth := ctx_depth ctx3 + 1\<rparr>)
              (arr @ [UnknownField (ucast (varint_groups 0 t)) (Group grp)])
              (grown_cap (length arr) cap) (length pre + length t + length bs + length e)
              (ucast (varint_groups 0 t))
              (if varint_groups 0 t < ucast lt then False else s)"
      and r: "ctx_ok ctx3" "ctx_end ctx3 = ctx_end ctx" "ctx_depth ctx3 + 1 = ctx_depth ctx"
      by blast
    from a have a': "DoBuild_loop al (pre @ (t @ bs @ e) @ post) ctx arr cap (length pre) lt s =
            DoBuild_loop al (pre @ (t @ bs @ e) @ post) (ctx3\<lparr>ctx_depth := ctx_depth ctx3 + 1\<rparr>)
              (arr @ [UnknownField (ucast (varint_groups 0 t)) (Group grp)])
              (grown_cap (length arr) cap) (length pre + length (t @ bs @ e))
              (ucast (varint_groups 0 t))
              (if varint_groups 0 t < ucast lt then False else s)"
      by (simp add: add.assoc)
    show "passes al (pre @ (t @ bs @ e) @ post) ctx arr cap (length pre) lt s
            (length pre + length (t @ bs @ e))"
      by (rule passesI[OF a']) (simp_all add: r)
  next
    assume n: "\<not> Suc n \<le> unat (ctx_depth ctx - 1)"
    from group_abort[OF t so al ok ce n]
    show "DoBuild_loop al (pre @ (t @ bs @ e) @ post) ctx arr cap (length pre) lt s =
            Inl (Longjmp kUpb_UnknownCompareResult_MaxDepthExceeded)" .
  }
qed

lemma well_formed_steps_over:
  assumes al: "never_fails al"
  shows "well_formed f \<Longrightarrow> steps_over al (wire_bytes f) (group_levels f)"
    and "well_formed_list fs \<Longrightarrow> steps_over al (wire_bytes_list fs) (group_levels_list fs)"
proof (induction f and fs rule: group_levels_group_levels_list.induct)
  case (1 t v)
  then show ?case using al by (simp add: steps_over_varint)
next
  case (2 t bs)
  then show ?case using al by (simp add: steps_over_fixed64)
next
  case (3 t bs)
  then show ?case using al by (simp add: steps_over_fixed32)
next
  case (4 t l bs)
  then show ?case using al by (simp add: steps_over_delimited)
next
  case (5 t fs e)
  then show ?case using al by (simp add: steps_over_group)
next
  case 6
  show ?case by (simp add: steps_over_nil)
next
  case (7 f fs)
  then show ?case by (simp add: steps_over_append)
qed

text \<open>
  The room in signed terms. A positive budget \<open>d\<close> has room for \<open>d - 1\<close>
  levels. A budget of 0 or less has room for every number of levels \<open>n\<close>
  that can be counted down from it within the range of \<^verbatim>\<open>int\<close>.
\<close>

lemma uint_of_sint_nonneg:
  fixes w :: "32 word"
  assumes "0 \<le> sint w"
  shows "uint w = sint w"
proof -
  have "sint w < 2 ^ 32" using sint_lt[of w] by simp
  with assms show ?thesis by (simp add: uint_sint[of w] take_bit_int_eq_self)
qed

lemma uint_of_sint_neg:
  fixes w :: "32 word"
  assumes "sint w < 0"
  shows "uint w = sint w + 2 ^ 32"
proof -
  have lo: "- (2 ^ 31) \<le> sint w" using sint_ge[of w] by simp
  have "uint w = sint w mod 2 ^ 32" by (simp add: uint_sint[of w] take_bit_eq_mod)
  also have "\<dots> = (sint w + 2 ^ 32) mod 2 ^ 32" by simp
  also have "\<dots> = sint w + 2 ^ 32" using lo assms by (intro mod_pos_pos_trivial) simp_all
  finally show ?thesis .
qed

lemma room_positive:
  fixes d :: "32 word"
  assumes "1 \<le> sint d"
  shows "n \<le> unat (d - 1) \<longleftrightarrow> int n < sint d"
proof -
  from depth_minus_1(1)[OF assms] assms have s: "sint (d - 1) = sint d - 1" "0 \<le> sint (d - 1)"
    by simp_all
  from uint_of_sint_nonneg[OF s(2)] s(1) have "int (unat (d - 1)) = sint d - 1" by simp
  then show ?thesis by linarith
qed

lemma room_nonpositive:
  fixes d :: "32 word"
  assumes "sint d \<le> 0" and "- (2 ^ 31) \<le> sint d - int n"
  shows "n \<le> unat (d - 1)"
proof (cases "n = 0")
  case True
  then show ?thesis by simp
next
  case False
  with assms(2) have lo: "- (2 ^ 31) \<le> sint d - 1" by simp
  have "sint d < 2 ^ 31" using sint_lt[of d] by simp
  with lo have s: "sint (d - 1) = sint d - 1"
    by (simp add: sint_word_ariths signed_take_bit_int_eq_self)
  with assms(1) have "sint (d - 1) < 0" by simp
  from uint_of_sint_neg[OF this] s have "int (unat (d - 1)) = sint d - 1 + 2 ^ 32" by simp
  with assms(2) have "int n \<le> int (unat (d - 1))" by simp
  then show ?thesis by (simp only: of_nat_le_iff)
qed

section \<open>The depth budget on any buffer\<close>

lemma Sort_keeps:
  "upb_UnknownFields_Sort al ctx uf = Inr (ctx', uf') \<Longrightarrow>
   ctx_depth ctx' = ctx_depth ctx \<and> ctx_end ctx' = ctx_end ctx"
  by (auto simp: upb_UnknownFields_Sort_def Let_def split: sum.splits if_splits)

lemma Grow_keeps:
  "(if n = cap then upb_UnknownFields_Grow al ctx n else Inr (ctx, cap)) = Inr (ctx1, cap1) \<Longrightarrow>
   ctx_depth ctx1 = ctx_depth ctx \<and> ctx_end ctx1 = ctx_end ctx"
  by (auto simp: upb_UnknownFields_Grow_def Let_def split: if_splits)

lemma DoBuild_keeps:
  "\<forall>ctx' p' uf. upb_UnknownFields_DoBuild al buf ctx p = Inr (ctx', p', uf) \<longrightarrow>
     ctx_depth ctx' = ctx_depth ctx \<and> ctx_end ctx' = ctx_end ctx"
  "\<forall>ctx' arr' cap' p' s'.
     DoBuild_loop al buf ctx arr cap p lt s = Inr (ctx', arr', cap', p', s') \<longrightarrow>
     ctx_depth ctx' = ctx_depth ctx \<and> ctx_end ctx' = ctx_end ctx"
proof (induction al buf ctx p and al buf ctx arr cap p lt s
       rule: upb_UnknownFields_DoBuild_DoBuild_loop.induct)
  case (1 al buf ctx buf_ptr)
  show ?case
  proof (intro allI impI)
    fix ctx' p' uf
    assume eq: "upb_UnknownFields_DoBuild al buf ctx buf_ptr = Inr (ctx', p', uf)"
    then obtain ctx1 arr1 cap1 p1 s1 where
      l: "DoBuild_loop al buf ctx [] 0 buf_ptr 0 True = Inr (ctx1, arr1, cap1, p1, s1)"
      by (cases "DoBuild_loop al buf ctx [] 0 buf_ptr 0 True")
         (auto simp: upb_UnknownFields_DoBuild.simps)
    with 1 have k: "ctx_depth ctx1 = ctx_depth ctx \<and> ctx_end ctx1 = ctx_end ctx" by blast
    from eq l have ar: "arena_ok al (ctx_arena ctx1)"
      by (cases "arena_ok al (ctx_arena ctx1)") (simp_all add: upb_UnknownFields_DoBuild.simps)
    show "ctx_depth ctx' = ctx_depth ctx \<and> ctx_end ctx' = ctx_end ctx"
    proof (cases s1)
      case True
      with eq l ar k show ?thesis by (auto simp: upb_UnknownFields_DoBuild.simps)
    next
      case False
      with eq l ar obtain uf' where
        "upb_UnknownFields_Sort al (ctx1\<lparr>ctx_arena := ctx_arena ctx1 + 1\<rparr>) arr1 = Inr (ctx', uf')"
        by (cases "upb_UnknownFields_Sort al (ctx1\<lparr>ctx_arena := ctx_arena ctx1 + 1\<rparr>) arr1")
           (auto simp: upb_UnknownFields_DoBuild.simps)
      from Sort_keeps[OF this] k show ?thesis by simp
    qed
  qed
next
  case (2 al buf ctx arr cap ptr last_tag sorted')
  note IH = 2
  note ps = DoBuild_loop.simps[of al buf ctx arr cap ptr last_tag sorted']
  show ?case
  proof (intro allI impI)
    fix ctx' arr' cap' p' s'
    assume eq: "DoBuild_loop al buf ctx arr cap ptr last_tag sorted' = Inr (ctx', arr', cap', p', s')"
    show "ctx_depth ctx' = ctx_depth ctx \<and> ctx_end ctx' = ctx_end ctx"
    proof (cases "ptr < ctx_end ctx")
      case False
      with eq show ?thesis by (simp add: ps)
    next
      case inb: True
      with eq obtain ptr1 tag' where
        pv: "upb_UnknownFields_ParseVarint buf ptr (ctx_end ctx) = Inr (ptr1, tag')"
        by (cases "upb_UnknownFields_ParseVarint buf ptr (ctx_end ctx)") (auto simp: ps)
      define wt where "wt = unat (tag' AND 7)"
      have tagok: "tag' \<le> 0xFFFFFFFF"
        using eq inb pv by (cases "tag' \<le> 0xFFFFFFFF") (simp_all add: ps)
      show ?thesis
      proof (cases "wt = UPB_WIRE_TYPE_END_GROUP")
        case True
        with eq inb pv tagok show ?thesis by (simp add: ps wt_def)
      next
        case neg: False
        let ?g = "if length arr = cap then upb_UnknownFields_Grow al ctx (length arr) else Inr (ctx, cap)"
        obtain ctx1 cap1 where grow: "?g = Inr (ctx1, cap1)"
          using eq inb pv tagok neg by (cases ?g) (auto simp: ps wt_def Let_def)
        note g = Grow_keeps[OF grow]
        note eq' = eq inb pv tagok neg grow
        note ss = ps Let_def wt_def wire_type_defs
        show ?thesis
        proof (cases "wt = 0")
          case True
          with eq' obtain ptr2 v where
            pv2: "upb_UnknownFields_ParseVarint buf ptr1 (ctx_end ctx1) = Inr (ptr2, v)"
            by (cases "upb_UnknownFields_ParseVarint buf ptr1 (ctx_end ctx1)") (auto simp: ss)
          from eq' True pv2 have
            "DoBuild_loop al buf ctx1 (arr @ [UnknownField (ucast tag') (Varint v)]) cap1 ptr2
               (ucast tag') (if tag' < ucast last_tag then False else sorted') =
             Inr (ctx', arr', cap', p', s')" by (simp add: ss)
          with IH(1)[OF _ pv refl _ refl _ refl refl grow refl _ pv2 refl]
          have "ctx_depth ctx' = ctx_depth ctx1 \<and> ctx_end ctx' = ctx_end ctx1"
            using inb tagok neg True by (simp add: wt_def wire_type_defs)
          with g show ?thesis by simp
        next
          case n0: False
          show ?thesis
          proof (cases "wt = 1")
            case True
            with eq' have b: "8 \<le> ctx_end ctx1 - ptr1" "ptr1 + 8 \<le> length buf"
              by (auto simp: ss split: if_splits)
            with eq' True have
              "DoBuild_loop al buf ctx1
                 (arr @ [UnknownField (ucast tag') (UInt64 (load_le (take 8 (drop ptr1 buf))))])
                 cap1 (ptr1 + 8) (ucast tag') (if tag' < ucast last_tag then False else sorted') =
               Inr (ctx', arr', cap', p', s')" by (simp add: ss)
            with IH(2)[OF _ pv refl _ refl _ refl refl grow refl]
            have "ctx_depth ctx' = ctx_depth ctx1 \<and> ctx_end ctx' = ctx_end ctx1"
              using inb tagok neg True b by (simp add: wt_def wire_type_defs)
            with g show ?thesis by simp
          next
            case n1: False
            show ?thesis
            proof (cases "wt = 5")
              case True
              with eq' have b: "4 \<le> ctx_end ctx1 - ptr1" "ptr1 + 4 \<le> length buf"
                by (auto simp: ss split: if_splits)
              with eq' True have
                "DoBuild_loop al buf ctx1
                   (arr @ [UnknownField (ucast tag') (UInt32 (load_le (take 4 (drop ptr1 buf))))])
                   cap1 (ptr1 + 4) (ucast tag') (if tag' < ucast last_tag then False else sorted') =
                 Inr (ctx', arr', cap', p', s')" by (simp add: ss)
              with IH(3)[OF _ pv refl _ refl _ refl refl grow refl]
              have "ctx_depth ctx' = ctx_depth ctx1 \<and> ctx_end ctx' = ctx_end ctx1"
                using inb tagok neg True b by (simp add: wt_def wire_type_defs)
              with g show ?thesis by simp
            next
              case n5: False
              show ?thesis
              proof (cases "wt = 2")
                case True
                with eq' obtain ptr2 sz where
                  pv2: "upb_UnknownFields_ParseVarint buf ptr1 (ctx_end ctx1) = Inr (ptr2, sz)"
                  by (cases "upb_UnknownFields_ParseVarint buf ptr1 (ctx_end ctx1)") (auto simp: ss)
                from eq' True pv2 have b: "unat sz \<le> ctx_end ctx1 - ptr2" "ptr2 + unat sz \<le> length buf"
                  by (auto simp: ss split: if_splits)
                with eq' True pv2 have
                  "DoBuild_loop al buf ctx1
                     (arr @ [UnknownField (ucast tag') (Delimited (take (unat sz) (drop ptr2 buf)))])
                     cap1 (ptr2 + unat sz) (ucast tag')
                     (if tag' < ucast last_tag then False else sorted') =
                   Inr (ctx', arr', cap', p', s')" by (simp add: ss)
                with IH(4)[OF _ pv refl _ refl _ refl refl grow refl _ _ _ _ pv2 refl]
                have "ctx_depth ctx' = ctx_depth ctx1 \<and> ctx_end ctx' = ctx_end ctx1"
                  using inb tagok neg True b by (simp add: wt_def wire_type_defs)
                with g show ?thesis by simp
              next
                case n2: False
                show ?thesis
                proof (cases "wt = 3")
                  case True
                  let ?c2 = "ctx1\<lparr>ctx_depth := ctx_depth ctx1 - 1\<rparr>"
                  from eq' True have d: "ctx_depth ctx1 - 1 \<noteq> 0"
                    by (auto simp: ss split: if_splits)
                  with eq' True obtain ctx3 ptr2 grp where
                    db: "upb_UnknownFields_DoBuild al buf ?c2 ptr1 = Inr (ctx3, ptr2, grp)"
                    by (cases "upb_UnknownFields_DoBuild al buf ?c2 ptr1") (auto simp: ss)
                  from eq' True d db have
                    c: "DoBuild_loop al buf (ctx3\<lparr>ctx_depth := ctx_depth ctx3 + 1\<rparr>)
                       (arr @ [UnknownField (ucast tag') (Group grp)]) cap1 ptr2 (ucast tag')
                       (if tag' < ucast last_tag then False else sorted') =
                     Inr (ctx', arr', cap', p', s')" by (simp add: ss)
                  have k3: "ctx_depth ctx3 = ctx_depth ctx1 - 1 \<and> ctx_end ctx3 = ctx_end ctx1"
                    using IH(5)[OF _ pv refl _ refl _ refl refl grow refl _ _ _ _ _ refl] db
                      inb tagok neg True d by (simp add: wt_def wire_type_defs)
                  moreover have "ctx_depth ctx' = ctx_depth ctx3 + 1 \<and> ctx_end ctx' = ctx_end ctx3"
                    using IH(6)[OF _ pv refl _ refl _ refl refl grow refl _ _ _ _ _ refl _ db refl refl] c
                      inb tagok neg True d by (simp add: wt_def wire_type_defs)
                  ultimately show ?thesis using g by simp
                next
                  case False
                  with eq' n0 n1 n5 n2 show ?thesis by (simp add: ss)
                qed
              qed
            qed
          qed
        qed
      qed
    qed
  qed
qed

section \<open>The builder and the entry point on well-formed buffers\<close>

lemma Build_pass:
  assumes al: "never_fails al" and wf: "well_formed_list fs" and ok: "ctx_ok ctx"
      and n: "group_levels_list fs \<le> unat (ctx_depth ctx - 1)"
  shows "\<exists>ctx' uf. upb_UnknownFields_Build al ctx (wire_bytes_list fs) = Inr (ctx', uf) \<and>
           ctx_ok ctx' \<and> ctx_depth ctx' = ctx_depth ctx"
proof -
  let ?c = "ctx\<lparr>ctx_end := length (wire_bytes_list fs)\<rparr>"
  from DoBuild_top_pass[OF well_formed_steps_over(2)[OF al wf] al, of ?c] ok n
  obtain ctx' grp where
    "upb_UnknownFields_DoBuild al (wire_bytes_list fs) ?c 0 =
       Inr (ctx', length (wire_bytes_list fs), grp)"
    "ctx_ok ctx'" "ctx_end ctx' = length (wire_bytes_list fs)" "ctx_depth ctx' = ctx_depth ctx"
    by auto
  then show ?thesis by (simp add: upb_UnknownFields_Build_def)
qed

lemma Build_abort:
  assumes al: "never_fails al" and wf: "well_formed_list fs" and ok: "ctx_ok ctx"
      and n: "\<not> group_levels_list fs \<le> unat (ctx_depth ctx - 1)"
  shows "upb_UnknownFields_Build al ctx (wire_bytes_list fs) =
           Inl (Longjmp kUpb_UnknownCompareResult_MaxDepthExceeded)"
proof -
  let ?c = "ctx\<lparr>ctx_end := length (wire_bytes_list fs)\<rparr>"
  from DoBuild_top_abort[OF well_formed_steps_over(2)[OF al wf], of ?c] ok n
  have "upb_UnknownFields_DoBuild al (wire_bytes_list fs) ?c 0 =
          Inl (Longjmp kUpb_UnknownCompareResult_MaxDepthExceeded)" by simp
  then show ?thesis by (simp add: upb_UnknownFields_Build_def)
qed

lemma well_formed_nonempty: "well_formed f \<Longrightarrow> wire_bytes f \<noteq> []"
  by (cases f) (auto simp: is_tag_def dest: is_varint_nonempty)

lemma levels_nonempty:
  "well_formed_list fs \<Longrightarrow> 0 < group_levels_list fs \<Longrightarrow> wire_bytes_list fs \<noteq> []"
  by (cases fs) (auto dest: well_formed_nonempty)

lemma memcmp_is_0_differ:
  "length s1 \<le> length s2 \<Longrightarrow> take (length s1) s2 \<noteq> s1 \<Longrightarrow>
   memcmp_is_0 s1 s2 (length s1) = Inr False"
  by (auto simp: memcmp_is_0_def)

lemma memcmp_is_0_short:
  "length s2 < length s1 \<Longrightarrow> memcmp_is_0 s1 s2 (length s1) = Inl ReadPastEnd"
  by (simp add: memcmp_is_0_def)

section \<open>Built sets are well typed\<close>

text \<open>
  The sort moves fields and adds none: whatever it returns holds fields of
  the array it was given, and as many of them. So the invariant that the
  comparator relies on holds for every set the builder returns.
\<close>

lemma Merge_loop_keeps:
  "Merge_loop tmp ptr1 end1 ptr2 end2 arr out = (arr', ptr1', ptr2', out') \<Longrightarrow>
   ptr1 \<le> end1 \<Longrightarrow> ptr2 \<le> end2 \<Longrightarrow> end1 \<le> length tmp \<Longrightarrow> end2 \<le> length tmp \<Longrightarrow>
   set arr' \<subseteq> set arr \<union> set tmp \<and> length arr' = length arr \<and>
   ptr1 \<le> ptr1' \<and> ptr1' \<le> end1 \<and> ptr2 \<le> ptr2' \<and> ptr2' \<le> end2 \<and>
   out' + ptr1 + ptr2 = out + ptr1' + ptr2' \<and> (ptr1' = end1 \<or> ptr2' = end2)"
proof (induction tmp ptr1 end1 ptr2 end2 arr out rule: Merge_loop.induct)
  case (1 tmp ptr1 end1 ptr2 end2 arr out)
  show ?case
  proof (cases "ptr1 < end1 \<and> ptr2 < end2")
    case False
    with "1.prems" show ?thesis
      by (subst (asm) Merge_loop.simps) auto
  next
    case c: True
    show ?thesis
    proof (cases "tag (tmp ! ptr1) \<le> tag (tmp ! ptr2)")
      case True
      with c "1.prems"(1) have
        "Merge_loop tmp (ptr1 + 1) end1 ptr2 end2 (arr[out := tmp ! ptr1]) (out + 1) =
           (arr', ptr1', ptr2', out')"
        by (subst (asm) Merge_loop.simps) simp
      from "1.IH"(1)[OF c True this] c "1.prems"(2-)
      have r: "set arr' \<subseteq> set (arr[out := tmp ! ptr1]) \<union> set tmp"
        "length arr' = length arr"
        "ptr1 + 1 \<le> ptr1'" "ptr1' \<le> end1" "ptr2 \<le> ptr2'" "ptr2' \<le> end2"
        "out' + (ptr1 + 1) + ptr2 = out + 1 + ptr1' + ptr2'" "ptr1' = end1 \<or> ptr2' = end2"
        by simp_all
      have "tmp ! ptr1 \<in> set tmp" using c "1.prems"(4) by simp
      with set_update_subset_insert[of arr out "tmp ! ptr1"] r(1)
      have "set arr' \<subseteq> set arr \<union> set tmp" by auto
      with r show ?thesis by simp
    next
      case False
      with c "1.prems"(1) have
        "Merge_loop tmp ptr1 end1 (ptr2 + 1) end2 (arr[out := tmp ! ptr2]) (out + 1) =
           (arr', ptr1', ptr2', out')"
        by (subst (asm) Merge_loop.simps) simp
      from "1.IH"(2)[OF c False this] c "1.prems"(2-)
      have r: "set arr' \<subseteq> set (arr[out := tmp ! ptr2]) \<union> set tmp"
        "length arr' = length arr"
        "ptr1 \<le> ptr1'" "ptr1' \<le> end1" "ptr2 + 1 \<le> ptr2'" "ptr2' \<le> end2"
        "out' + ptr1 + (ptr2 + 1) = out + 1 + ptr1' + ptr2'" "ptr1' = end1 \<or> ptr2' = end2"
        by simp_all
      have "tmp ! ptr2 \<in> set tmp" using c "1.prems"(5) by simp
      with set_update_subset_insert[of arr out "tmp ! ptr2"] r(1)
      have "set arr' \<subseteq> set arr \<union> set tmp" by auto
      with r show ?thesis by simp
    qed
  qed
qed

lemma memcpy_fields_keeps:
  "d + n \<le> length dst \<Longrightarrow> s + n \<le> length src \<Longrightarrow>
   set (memcpy_fields dst d src s n) \<subseteq> set dst \<union> set src \<and>
   length (memcpy_fields dst d src s n) = length dst"
proof -
  have "set (take d dst) \<subseteq> set dst" "set (drop (d + n) dst) \<subseteq> set dst"
    "set (take n (drop s src)) \<subseteq> set src"
    by (auto dest: in_set_takeD in_set_dropD)
  then show "d + n \<le> length dst \<Longrightarrow> s + n \<le> length src \<Longrightarrow> ?thesis"
    by (auto simp: memcpy_fields_def)
qed

lemma Merge_keeps:
  assumes m: "upb_UnknownFields_Merge arr start mid end' tmp = Inr arr'"
      and r: "start \<le> mid" "mid \<le> end'" "end' \<le> length arr"
  shows "set arr' \<subseteq> set arr \<and> length arr' = length arr"
proof -
  define tmp_v where "tmp_v = take (end' - start) (drop start arr)"
  have lt: "length tmp_v = end' - start" using r by (simp add: tmp_v_def)
  have st: "set tmp_v \<subseteq> set arr"
    unfolding tmp_v_def by (auto dest: in_set_takeD in_set_dropD)
  obtain arr1 p1 p2 out where
    l: "Merge_loop tmp_v 0 (mid - start) (mid - start) (end' - start) arr start = (arr1, p1, p2, out)"
    by (cases "Merge_loop tmp_v 0 (mid - start) (mid - start) (end' - start) arr start") auto
  from Merge_loop_keeps[OF l] r lt
  have k: "set arr1 \<subseteq> set arr \<union> set tmp_v" "length arr1 = length arr"
    "p1 \<le> mid - start" "mid - start \<le> p2" "p2 \<le> end' - start"
    "out + (mid - start) = start + p1 + p2" "p1 = mid - start \<or> p2 = end' - start"
    by simp_all
  from m obtain c where c: "tmp = Some c" "\<not> c < end' - start"
    by (cases tmp) (auto simp: upb_UnknownFields_Merge_def split: if_splits)
  show ?thesis
  proof (cases "p1 < mid - start")
    case True
    with k have p2: "p2 = end' - start" by simp
    from m c l True have a: "arr' = memcpy_fields arr1 out tmp_v p1 (mid - start - p1)"
      by (simp add: upb_UnknownFields_Merge_def Let_def tmp_v_def[symmetric])
    have "out + (mid - start - p1) \<le> length arr1" "p1 + (mid - start - p1) \<le> length tmp_v"
      using k p2 r lt True by simp_all
    from memcpy_fields_keeps[OF this] a k st show ?thesis by auto
  next
    case False
    with k have p1: "p1 = mid - start" by simp
    show ?thesis
    proof (cases "p2 < end' - start")
      case True
      from m c l p1 True have a: "arr' = memcpy_fields arr1 out tmp_v p1 (end' - start - p2)"
        by (simp add: upb_UnknownFields_Merge_def Let_def tmp_v_def[symmetric])
      have "out + (end' - start - p2) \<le> length arr1" "p1 + (end' - start - p2) \<le> length tmp_v"
        using k p1 r lt True by simp_all
      from memcpy_fields_keeps[OF this] a k st show ?thesis by auto
    next
      case False
      from m c l p1 False have "arr' = arr1"
        by (simp add: upb_UnknownFields_Merge_def Let_def tmp_v_def[symmetric])
      with k st show ?thesis by auto
    qed
  qed
qed

lemma SortRecursive_keeps:
  "upb_UnknownFields_SortRecursive arr start end' tmp = Inr arr' \<Longrightarrow>
   start \<le> end' \<Longrightarrow> end' \<le> length arr \<Longrightarrow>
   set arr' \<subseteq> set arr \<and> length arr' = length arr"
proof (induction arr start end' tmp arbitrary: arr'
       rule: upb_UnknownFields_SortRecursive.induct)
  case (1 arr start end' tmp)
  show ?case
  proof (cases "end' - start > 1")
    case False
    with "1.prems"(1) show ?thesis
      by (subst (asm) upb_UnknownFields_SortRecursive.simps) simp
  next
    case True
    define mid where "mid = start + (end' - start) div 2"
    have mid: "start \<le> mid" "mid \<le> end'" using "1.prems"(2) by (simp_all add: mid_def)
    from "1.prems"(1) True obtain arr1 where
      a1: "upb_UnknownFields_SortRecursive arr start mid tmp = Inr arr1"
      by (subst (asm) upb_UnknownFields_SortRecursive.simps)
         (auto simp: Let_def mid_def split: sum.splits)
    from "1.prems"(1) True a1 obtain arr2 where
      a2: "upb_UnknownFields_SortRecursive arr1 mid end' tmp = Inr arr2"
      by (subst (asm) upb_UnknownFields_SortRecursive.simps)
         (auto simp: Let_def mid_def[symmetric] split: sum.splits)
    from "1.prems"(1) True a1 a2 have
      a3: "upb_UnknownFields_Merge arr2 start mid end' tmp = Inr arr'"
      by (subst (asm) upb_UnknownFields_SortRecursive.simps)
         (simp add: Let_def mid_def[symmetric])
    from "1.IH"(1)[OF True mid_def a1 mid(1)] mid "1.prems"(3)
    have k1: "set arr1 \<subseteq> set arr" "length arr1 = length arr" by simp_all
    from "1.IH"(2)[OF True mid_def a1 a2 mid(2)] k1 "1.prems"(3)
    have k2: "set arr2 \<subseteq> set arr1" "length arr2 = length arr1" by simp_all
    from Merge_keeps[OF a3 mid] k2 k1 "1.prems"(3)
    show ?thesis by auto
  qed
qed

lemma Sort_keeps_fields:
  "upb_UnknownFields_Sort al ctx uf = Inr (ctx', uf') \<Longrightarrow>
   set uf' \<subseteq> set uf \<and> length uf' = length uf"
  by (auto simp: upb_UnknownFields_Sort_def Let_def split: sum.splits
           dest!: SortRecursive_keeps)

lemma low3_ucast: "unat ((ucast (w :: 64 word) :: 32 word) AND 7) = unat (w AND 7)"
proof -
  have "(ucast w :: 32 word) AND 7 = ucast (w AND 7)"
    by (rule bit_word_eqI) (auto simp: bit_simps)
  moreover have "unat (w AND 7) < 2 ^ 32"
    using word_and_le1[of w 7] by (simp add: word_le_nat_alt)
  ultimately show ?thesis by (simp add: unsigned_ucast_eq take_bit_nat_eq_self)
qed

lemma well_typed_snoc [simp]:
  "well_typed (arr @ [f]) = (well_typed arr \<and> well_typed_field f)"
  by (auto simp: well_typed_def)

lemma well_typed_Nil [simp]: "well_typed []"
  by (simp add: well_typed_def)

lemma DoBuild_well_typed:
  "\<forall>ctx' p' uf. upb_UnknownFields_DoBuild al buf ctx p = Inr (ctx', p', uf) \<longrightarrow> well_typed uf"
  "\<forall>ctx' arr' cap' p' s'.
     DoBuild_loop al buf ctx arr cap p lt s = Inr (ctx', arr', cap', p', s') \<longrightarrow>
     well_typed arr \<longrightarrow> well_typed arr'"
proof (induction al buf ctx p and al buf ctx arr cap p lt s
       rule: upb_UnknownFields_DoBuild_DoBuild_loop.induct)
  case (1 al buf ctx buf_ptr)
  show ?case
  proof (intro allI impI)
    fix ctx' p' uf
    assume eq: "upb_UnknownFields_DoBuild al buf ctx buf_ptr = Inr (ctx', p', uf)"
    then obtain ctx1 arr1 cap1 p1 s1 where
      l: "DoBuild_loop al buf ctx [] 0 buf_ptr 0 True = Inr (ctx1, arr1, cap1, p1, s1)"
      by (cases "DoBuild_loop al buf ctx [] 0 buf_ptr 0 True")
         (auto simp: upb_UnknownFields_DoBuild.simps)
    with 1 have k: "well_typed arr1" by simp
    from eq l have ar: "arena_ok al (ctx_arena ctx1)"
      by (cases "arena_ok al (ctx_arena ctx1)") (simp_all add: upb_UnknownFields_DoBuild.simps)
    show "well_typed uf"
    proof (cases s1)
      case True
      with eq l ar k show ?thesis by (auto simp: upb_UnknownFields_DoBuild.simps)
    next
      case False
      with eq l ar have
        "upb_UnknownFields_Sort al (ctx1\<lparr>ctx_arena := ctx_arena ctx1 + 1\<rparr>) arr1 = Inr (ctx', uf)"
        by (cases "upb_UnknownFields_Sort al (ctx1\<lparr>ctx_arena := ctx_arena ctx1 + 1\<rparr>) arr1")
           (auto simp: upb_UnknownFields_DoBuild.simps)
      from Sort_keeps_fields[OF this] k show ?thesis by (auto simp: well_typed_def)
    qed
  qed
next
  case (2 al buf ctx arr cap ptr last_tag sorted')
  note IH = 2
  note ps = DoBuild_loop.simps[of al buf ctx arr cap ptr last_tag sorted']
  show ?case
  proof (intro allI impI)
    fix ctx' arr' cap' p' s'
    assume eq: "DoBuild_loop al buf ctx arr cap ptr last_tag sorted' = Inr (ctx', arr', cap', p', s')"
      and wa: "well_typed arr"
    show "well_typed arr'"
    proof (cases "ptr < ctx_end ctx")
      case False
      with eq wa show ?thesis by (simp add: ps)
    next
      case inb: True
      with eq obtain ptr1 tag' where
        pv: "upb_UnknownFields_ParseVarint buf ptr (ctx_end ctx) = Inr (ptr1, tag')"
        by (cases "upb_UnknownFields_ParseVarint buf ptr (ctx_end ctx)") (auto simp: ps)
      define wt where "wt = unat (tag' AND 7)"
      have tagok: "tag' \<le> 0xFFFFFFFF"
        using eq inb pv by (cases "tag' \<le> 0xFFFFFFFF") (simp_all add: ps)
      show ?thesis
      proof (cases "wt = UPB_WIRE_TYPE_END_GROUP")
        case True
        with eq inb pv tagok wa show ?thesis by (simp add: ps wt_def)
      next
        case neg: False
        let ?g = "if length arr = cap then upb_UnknownFields_Grow al ctx (length arr) else Inr (ctx, cap)"
        obtain ctx1 cap1 where grow: "?g = Inr (ctx1, cap1)"
          using eq inb pv tagok neg by (cases ?g) (auto simp: ps wt_def Let_def)
        note eq' = eq inb pv tagok neg grow
        note ss = ps Let_def wt_def wire_type_defs
        show ?thesis
        proof (cases "wt = 0")
          case True
          with eq' obtain ptr2 v where
            pv2: "upb_UnknownFields_ParseVarint buf ptr1 (ctx_end ctx1) = Inr (ptr2, v)"
            by (cases "upb_UnknownFields_ParseVarint buf ptr1 (ctx_end ctx1)") (auto simp: ss)
          from eq' True pv2 have
            "DoBuild_loop al buf ctx1 (arr @ [UnknownField (ucast tag') (Varint v)]) cap1 ptr2
               (ucast tag') (if tag' < ucast last_tag then False else sorted') =
             Inr (ctx', arr', cap', p', s')" by (simp add: ss)
          with IH(1)[OF _ pv refl _ refl _ refl refl grow refl _ pv2 refl]
          show ?thesis
            using inb tagok neg True wa by (simp add: wt_def wire_type_defs low3_ucast)
        next
          case n0: False
          show ?thesis
          proof (cases "wt = 1")
            case True
            with eq' have b: "8 \<le> ctx_end ctx1 - ptr1" "ptr1 + 8 \<le> length buf"
              by (auto simp: ss split: if_splits)
            with eq' True have
              "DoBuild_loop al buf ctx1
                 (arr @ [UnknownField (ucast tag') (UInt64 (load_le (take 8 (drop ptr1 buf))))])
                 cap1 (ptr1 + 8) (ucast tag') (if tag' < ucast last_tag then False else sorted') =
               Inr (ctx', arr', cap', p', s')" by (simp add: ss)
            with IH(2)[OF _ pv refl _ refl _ refl refl grow refl]
            show ?thesis
              using inb tagok neg True b wa by (simp add: wt_def wire_type_defs low3_ucast)
          next
            case n1: False
            show ?thesis
            proof (cases "wt = 5")
              case True
              with eq' have b: "4 \<le> ctx_end ctx1 - ptr1" "ptr1 + 4 \<le> length buf"
                by (auto simp: ss split: if_splits)
              with eq' True have
                "DoBuild_loop al buf ctx1
                   (arr @ [UnknownField (ucast tag') (UInt32 (load_le (take 4 (drop ptr1 buf))))])
                   cap1 (ptr1 + 4) (ucast tag') (if tag' < ucast last_tag then False else sorted') =
                 Inr (ctx', arr', cap', p', s')" by (simp add: ss)
              with IH(3)[OF _ pv refl _ refl _ refl refl grow refl]
              show ?thesis
                using inb tagok neg True b wa by (simp add: wt_def wire_type_defs low3_ucast)
            next
              case n5: False
              show ?thesis
              proof (cases "wt = 2")
                case True
                with eq' obtain ptr2 sz where
                  pv2: "upb_UnknownFields_ParseVarint buf ptr1 (ctx_end ctx1) = Inr (ptr2, sz)"
                  by (cases "upb_UnknownFields_ParseVarint buf ptr1 (ctx_end ctx1)") (auto simp: ss)
                from eq' True pv2 have b: "unat sz \<le> ctx_end ctx1 - ptr2" "ptr2 + unat sz \<le> length buf"
                  by (auto simp: ss split: if_splits)
                with eq' True pv2 have
                  "DoBuild_loop al buf ctx1
                     (arr @ [UnknownField (ucast tag') (Delimited (take (unat sz) (drop ptr2 buf)))])
                     cap1 (ptr2 + unat sz) (ucast tag')
                     (if tag' < ucast last_tag then False else sorted') =
                   Inr (ctx', arr', cap', p', s')" by (simp add: ss)
                with IH(4)[OF _ pv refl _ refl _ refl refl grow refl _ _ _ _ pv2 refl]
                show ?thesis
                  using inb tagok neg True b wa by (simp add: wt_def wire_type_defs low3_ucast)
              next
                case n2: False
                show ?thesis
                proof (cases "wt = 3")
                  case True
                  let ?c2 = "ctx1\<lparr>ctx_depth := ctx_depth ctx1 - 1\<rparr>"
                  from eq' True have d: "ctx_depth ctx1 - 1 \<noteq> 0"
                    by (auto simp: ss split: if_splits)
                  with eq' True obtain ctx3 ptr2 grp where
                    db: "upb_UnknownFields_DoBuild al buf ?c2 ptr1 = Inr (ctx3, ptr2, grp)"
                    by (cases "upb_UnknownFields_DoBuild al buf ?c2 ptr1") (auto simp: ss)
                  from eq' True d db have
                    c: "DoBuild_loop al buf (ctx3\<lparr>ctx_depth := ctx_depth ctx3 + 1\<rparr>)
                       (arr @ [UnknownField (ucast tag') (Group grp)]) cap1 ptr2 (ucast tag')
                       (if tag' < ucast last_tag then False else sorted') =
                     Inr (ctx', arr', cap', p', s')" by (simp add: ss)
                  have g: "well_typed grp"
                    using IH(5)[OF _ pv refl _ refl _ refl refl grow refl _ _ _ _ _ refl] db
                      inb tagok neg True d by (simp add: wt_def wire_type_defs)
                  then have "well_typed_field (UnknownField (ucast tag') (Group grp))"
                    using True by (simp add: wt_def wire_type_defs well_typed_def low3_ucast)
                  with IH(6)[OF _ pv refl _ refl _ refl refl grow refl _ _ _ _ _ refl _ db refl refl] c
                  show ?thesis
                    using inb tagok neg True d wa by (simp add: wt_def wire_type_defs)
                next
                  case False
                  with eq' n0 n1 n5 n2 show ?thesis by (simp add: ss)
                qed
              qed
            qed
          qed
        qed
      qed
    qed
  qed
qed

lemma Build_well_typed:
  "upb_UnknownFields_Build al ctx buf = Inr (ctx', uf) \<Longrightarrow> well_typed uf"
  using DoBuild_well_typed(1)[of al buf "ctx\<lparr>ctx_end := length buf\<rparr>" 0]
  by (auto simp: upb_UnknownFields_Build_def Let_def split: sum.splits if_splits)

text \<open>
  So the comparison never leaves by a misread union or an unknown wire type:
  on the two sets it has built, the comparator returns whether they are the
  same set.
\<close>

lemma compare_of_built_sets:
  "upb_UnknownFields_Build al ctx buf1 = Inr (ctx1, uf1) \<Longrightarrow>
   upb_UnknownFields_Build al ctx1 buf2 = Inr (ctx2, uf2) \<Longrightarrow>
   upb_UnknownFields_IsEqual uf1 uf2 = Inr (uf1 = uf2)"
  by (intro IsEqual_structural Build_well_typed)

lemma ParseVarint_loop_at_most:
  "ParseVarint_loop buf ptr limit bitpos val = Inr (ptr', v) \<Longrightarrow>
   7 * (ptr' - ptr) + bitpos \<le> 76"
proof (induction buf ptr limit bitpos val rule: ParseVarint_loop.induct)
  case (1 buf ptr limit bitpos val)
  from "1.prems" have ok: "bitpos < 70" "ptr < limit" "ptr < length buf"
    by (subst (asm) ParseVarint_loop.simps, auto split: if_splits)+
  show ?case
  proof (cases "buf ! ptr AND 0x80 \<noteq> 0")
    case True
    with "1.prems" ok have
      r: "ParseVarint_loop buf (ptr + 1) limit (bitpos + 7)
         (val OR push_bit bitpos (ucast (buf ! ptr AND 0x7F))) = Inr (ptr', v)"
      by (subst (asm) ParseVarint_loop.simps) (simp add: Let_def)
    from "1.IH"[OF _ _ refl refl _ this] ok True
    have "7 * (ptr' - (ptr + 1)) + (bitpos + 7) \<le> 76" by simp
    moreover from ParseVarint_loop_bounds[OF r] have "ptr + 1 < ptr'" by simp
    ultimately show ?thesis by simp
  next
    case False
    with "1.prems" ok have "ptr' = ptr + 1"
      by (subst (asm) ParseVarint_loop.simps) (simp add: Let_def)
    with ok show ?thesis by simp
  qed
qed

text \<open>On any bytes, a varint that is returned was read from at most 10 of them.\<close>

lemma ParseVarint_at_most_10:
  "upb_UnknownFields_ParseVarint buf ptr limit = Inr (ptr', v) \<Longrightarrow>
   ptr < ptr' \<and> ptr' \<le> ptr + 10 \<and> ptr' \<le> limit"
  unfolding upb_UnknownFields_ParseVarint_def
  using ParseVarint_loop_at_most[of buf ptr limit 0 0 ptr' v]
    ParseVarint_loop_bounds[of buf ptr limit 0 0 ptr' v]
  by auto

text \<open>
  Two buffers that hold nothing but one tag twice, with the two values in
  either order, are already ascending, are not sorted, and compare NotEqual.
\<close>

lemma two_equal_tags_only:
  "upb_Message_UnknownFieldsAreEqual no_failure [0x30, 7, 0x30, 9] [0x30, 9, 0x30, 7] 1 =
     Inr kUpb_UnknownCompareResult_NotEqual"
  by code_simp

lemma Build_group_example:
  "upb_UnknownFields_Build no_failure
     \<lparr>ctx_end = 0, ctx_arena = 0, ctx_reallocs = 0, ctx_tmp = None, ctx_tmp_size = 0,
      ctx_depth = 2\<rparr> [0x0B, 0x10, 0x02, 0x0C] =
   Inr (\<lparr>ctx_end = 4, ctx_arena = 4, ctx_reallocs = 0, ctx_tmp = None, ctx_tmp_size = 0,
         ctx_depth = 2\<rparr>,
        [UnknownField 0x0B (Group [UnknownField 0x10 (Varint 2)])])"
  by code_simp

section \<open>The claims\<close>

text \<open>
  C1. Order independence does not hold in the code. \<open>X\<close> holds the varint
  fields 2, 1, 3 (tags 0x10, 0x08, 0x18) and \<open>Y\<close> the same fields as 1, 2, 3;
  no tag repeats. The merge of \<open>[2]\<close> with \<open>[1, 3]\<close> takes 1, then 2, and then
  copies one field from \<open>ptr1\<close>, which is the start of the right run: field 1
  again. The set built from \<open>X\<close> has the tags 0x08, 0x10, 0x08, it is not
  ascending, and the comparison returns NotEqual.
\<close>

theorem C1_permuted_fields_not_equal:
  "upb_Message_UnknownFieldsAreEqual no_failure
     [0x10, 0x02, 0x08, 0x01, 0x18, 0x03] [0x08, 0x01, 0x10, 0x02, 0x18, 0x03] 1 =
     Inr kUpb_UnknownCompareResult_NotEqual
   \<and> upb_UnknownFields_SortRecursive
       [UnknownField 0x10 (Varint 2), UnknownField 0x08 (Varint 1), UnknownField 0x18 (Varint 3)]
       0 3 (Some 8) =
     Inr [UnknownField 0x08 (Varint 1), UnknownField 0x10 (Varint 2), UnknownField 0x08 (Varint 1)]"
  by code_simp

text \<open>
  C2. Let \<open>X\<close> be a well-formed buffer whose groups nest \<open>n\<close> levels deep (0
  without a group, 1 for a group that holds no group), and
  \<open>1 \<le> max_depth \<le> n\<close>; no allocation fails. (1) Compared with a buffer
  \<open>Y\<close> that is at least as long as \<open>X\<close> and differs from it in the first
  \<open>size1\<close> bytes, the result is MaxDepthExceeded, whatever \<open>Y\<close> holds.
  (2) So it is with \<open>X\<close> as the second buffer, after a well-formed first
  buffer that is no longer than \<open>X\<close> and differs from the first bytes of
  \<open>X\<close>. (3) A buffer \<open>Y\<close> whose first \<open>size1\<close> bytes are those of \<open>X\<close>
  gives Equal: the fast path returns before any field is read, and no depth
  is checked.
\<close>

theorem C2_depth_guard:
  assumes al: "never_fails al" and wf: "well_formed_list fs"
      and d: "1 \<le> sint d" and n: "sint d \<le> int (group_levels_list fs)"
  shows "(length (wire_bytes_list fs) \<le> length Y \<and>
            take (length (wire_bytes_list fs)) Y \<noteq> wire_bytes_list fs \<longrightarrow>
            upb_Message_UnknownFieldsAreEqual al (wire_bytes_list fs) Y d =
              Inr kUpb_UnknownCompareResult_MaxDepthExceeded)
       \<and> (well_formed_list gs \<and>
            length (wire_bytes_list gs) \<le> length (wire_bytes_list fs) \<and>
            take (length (wire_bytes_list gs)) (wire_bytes_list fs) \<noteq> wire_bytes_list gs \<longrightarrow>
            upb_Message_UnknownFieldsAreEqual al (wire_bytes_list gs) (wire_bytes_list fs) d =
              Inr kUpb_UnknownCompareResult_MaxDepthExceeded)
       \<and> (length (wire_bytes_list fs) \<le> length Y \<and>
            take (length (wire_bytes_list fs)) Y = wire_bytes_list fs \<longrightarrow>
            upb_Message_UnknownFieldsAreEqual al (wire_bytes_list fs) Y d =
              Inr kUpb_UnknownCompareResult_Equal)"
proof (intro conjI impI)
  let ?X = "wire_bytes_list fs"
  let ?c = "\<lparr>ctx_end = 0, ctx_arena = 0, ctx_reallocs = 0, ctx_tmp = None, ctx_tmp_size = 0,
             ctx_depth = d\<rparr>"
  have ok: "ctx_ok ?c" by (simp add: ctx_ok_def)
  from al have new: "arena_new_ok al" by (simp add: never_fails_def)
  from d n have "0 < group_levels_list fs" by simp
  with wf have x: "?X \<noteq> []" by (rule levels_nonempty)
  {
    assume a: "length ?X \<le> length Y \<and> take (length ?X) Y \<noteq> ?X"
    with x have y: "Y \<noteq> []" by auto
    from a have m: "memcmp_is_0 ?X Y (length ?X) = Inr False" by (simp add: memcmp_is_0_differ)
    from Build_abort[OF al wf ok] room_positive[OF d, of "group_levels_list fs"] n
    have "upb_UnknownFields_Build al ?c ?X =
            Inl (Longjmp kUpb_UnknownCompareResult_MaxDepthExceeded)" by simp
    with x y m new
    show "upb_Message_UnknownFieldsAreEqual al ?X Y d =
            Inr kUpb_UnknownCompareResult_MaxDepthExceeded"
      by (simp add: upb_Message_UnknownFieldsAreEqual_def)
  next
    let ?Y = "wire_bytes_list gs"
    assume a: "well_formed_list gs \<and> length ?Y \<le> length ?X \<and> take (length ?Y) ?X \<noteq> ?Y"
    then have y: "?Y \<noteq> []" by auto
    from a have m: "memcmp_is_0 ?Y ?X (length ?Y) = Inr False" by (simp add: memcmp_is_0_differ)
    have "(case upb_UnknownFields_Build al ?c ?Y of
             Inl e \<Rightarrow> Inl e
           | Inr (ctx1, uf1) \<Rightarrow>
               (case upb_UnknownFields_Build al ctx1 ?X of
                  Inl e \<Rightarrow> Inl e
                | Inr (ctx2, uf2) \<Rightarrow> upb_UnknownFields_IsEqual uf1 uf2)) =
          Inl (Longjmp kUpb_UnknownCompareResult_MaxDepthExceeded)"
    proof (cases "int (group_levels_list gs) < sint d")
      case False
      with Build_abort[OF al _ ok, of gs] a room_positive[OF d, of "group_levels_list gs"]
      show ?thesis by simp
    next
      case True
      with Build_pass[OF al _ ok, of gs] a room_positive[OF d, of "group_levels_list gs"]
      obtain ctx1 uf1 where
        b: "upb_UnknownFields_Build al ?c ?Y = Inr (ctx1, uf1)"
        and ok1: "ctx_ok ctx1" and d1: "ctx_depth ctx1 = d"
        by auto
      from Build_abort[OF al wf ok1] room_positive[OF d, of "group_levels_list fs"] n d1
      have "upb_UnknownFields_Build al ctx1 ?X =
              Inl (Longjmp kUpb_UnknownCompareResult_MaxDepthExceeded)" by simp
      with b show ?thesis by simp
    qed
    with x y m new
    show "upb_Message_UnknownFieldsAreEqual al ?Y ?X d =
            Inr kUpb_UnknownCompareResult_MaxDepthExceeded"
      by (simp add: upb_Message_UnknownFieldsAreEqual_def)
  next
    assume a: "length ?X \<le> length Y \<and> take (length ?X) Y = ?X"
    with x have y: "Y \<noteq> []" by auto
    from a have "memcmp_is_0 ?X Y (length ?X) = Inr True" by (simp add: memcmp_is_0_prefix)
    with x y show "upb_Message_UnknownFieldsAreEqual al ?X Y d =
            Inr kUpb_UnknownCompareResult_Equal"
      by (simp add: upb_Message_UnknownFieldsAreEqual_def)
  }
qed

theorem C2_depth_guard_witness:
  "never_fails no_failure
   \<and> well_formed_list [WGroup [0x0B] [WVarint [0x10] [0x02], WVarint [0x08] [0x01]] [0x0C]]
   \<and> 1 \<le> sint (1 :: 32 word)
   \<and> sint (1 :: 32 word) \<le>
       int (group_levels_list [WGroup [0x0B] [WVarint [0x10] [0x02], WVarint [0x08] [0x01]] [0x0C]])
   \<and> well_formed_list [WGroup [0x0B] [WVarint [0x08] [0x01], WVarint [0x10] [0x02]] [0x0C]]
   \<and> wire_bytes_list [WGroup [0x0B] [WVarint [0x10] [0x02], WVarint [0x08] [0x01]] [0x0C]] =
       [0x0B, 0x10, 0x02, 0x08, 0x01, 0x0C]
   \<and> wire_bytes_list [WGroup [0x0B] [WVarint [0x08] [0x01], WVarint [0x10] [0x02]] [0x0C]] =
       [0x0B, 0x08, 0x01, 0x10, 0x02, 0x0C]
   \<and> length [0x0B, 0x10, 0x02, 0x08, 0x01, 0x0C :: byte] \<le>
       length [0x0B, 0x08, 0x01, 0x10, 0x02, 0x0C :: byte]
   \<and> take (length [0x0B, 0x10, 0x02, 0x08, 0x01, 0x0C :: byte])
         [0x0B, 0x08, 0x01, 0x10, 0x02, 0x0C :: byte] \<noteq>
       [0x0B, 0x10, 0x02, 0x08, 0x01, 0x0C]
   \<and> upb_Message_UnknownFieldsAreEqual no_failure
        [0x0B, 0x10, 0x02, 0x08, 0x01, 0x0C] [0x0B, 0x08, 0x01, 0x10, 0x02, 0x0C] 1 =
       Inr kUpb_UnknownCompareResult_MaxDepthExceeded
   \<and> upb_Message_UnknownFieldsAreEqual no_failure
        [0x0B, 0x08, 0x01, 0x10, 0x02, 0x0C] [0x0B, 0x10, 0x02, 0x08, 0x01, 0x0C] 1 =
       Inr kUpb_UnknownCompareResult_MaxDepthExceeded
   \<and> take (length [0x0B, 0x10, 0x02, 0x08, 0x01, 0x0C :: byte])
         [0x0B, 0x10, 0x02, 0x08, 0x01, 0x0C, 0x18, 0x03 :: byte] =
       [0x0B, 0x10, 0x02, 0x08, 0x01, 0x0C]
   \<and> upb_Message_UnknownFieldsAreEqual no_failure
        [0x0B, 0x10, 0x02, 0x08, 0x01, 0x0C] [0x0B, 0x10, 0x02, 0x08, 0x01, 0x0C, 0x18, 0x03] 1 =
       Inr kUpb_UnknownCompareResult_Equal
   \<and> upb_Message_UnknownFieldsAreEqual no_failure
        [0x0B, 0x10, 0x02, 0x08, 0x01, 0x0C] [0x0B, 0x08, 0x01, 0x10, 0x02, 0x0C] 2 =
       Inr kUpb_UnknownCompareResult_Equal"
proof -
  let ?fs = "[WGroup [0x0B] [WVarint [0x10] [0x02], WVarint [0x08] [0x01]] [0x0C]]"
  let ?gs = "[WGroup [0x0B] [WVarint [0x08] [0x01], WVarint [0x10] [0x02]] [0x0C]]"
  have 1: "never_fails no_failure" by (simp add: never_fails_def no_failure_def)
  have 2: "well_formed_list ?fs" "well_formed_list ?gs" by code_simp+
  have 3: "1 \<le> sint (1 :: 32 word)" "sint (1 :: 32 word) \<le> int (group_levels_list ?fs)"
    by simp_all
  have 4: "upb_Message_UnknownFieldsAreEqual no_failure
        [0x0B, 0x10, 0x02, 0x08, 0x01, 0x0C] [0x0B, 0x08, 0x01, 0x10, 0x02, 0x0C] 2 =
       Inr kUpb_UnknownCompareResult_Equal" by code_simp
  from C2_depth_guard [OF 1 2(1) 3, of "wire_bytes_list ?gs" ?gs]
    C2_depth_guard [OF 1 2(1) 3, of "[0x0B, 0x10, 0x02, 0x08, 0x01, 0x0C, 0x18, 0x03]" ?gs]
    1 2 3 4
  show ?thesis by simp
qed

theorem C2_identical_buffers_counterexample:
  "upb_Message_UnknownFieldsAreEqual no_failure
     [0x0B, 0x0B, 0x0B, 0x0C, 0x0C, 0x0C] [0x0B, 0x0B, 0x0B, 0x0C, 0x0C, 0x0C] 1 =
     Inr kUpb_UnknownCompareResult_Equal
   \<and> upb_Message_UnknownFieldsAreEqual no_failure
       [0x0B, 0x0B, 0x0B, 0x0C, 0x0C, 0x0C] [0x0B, 0x0B, 0x0B, 0x0C, 0x0C, 0x0C, 0x08, 0x01] 1 =
     Inr kUpb_UnknownCompareResult_Equal
   \<and> upb_Message_UnknownFieldsAreEqual no_failure
       [0x0B, 0x0B, 0x0B, 0x0C, 0x0C, 0x0C] [0x08, 0x01, 0x10, 0x02, 0x18, 0x03] 0 =
     Inr kUpb_UnknownCompareResult_NotEqual
   \<and> well_formed_list [WGroup [0x0B] [WGroup [0x0B] [WGroup [0x0B] [] [0x0C]] [0x0C]] [0x0C]]
   \<and> wire_bytes_list [WGroup [0x0B] [WGroup [0x0B] [WGroup [0x0B] [] [0x0C]] [0x0C]] [0x0C]] =
       [0x0B, 0x0B, 0x0B, 0x0C, 0x0C, 0x0C]
   \<and> group_levels_list [WGroup [0x0B] [WGroup [0x0B] [WGroup [0x0B] [] [0x0C]] [0x0C]] [0x0C]] = 3"
  by code_simp

text \<open>
  C3. If \<open>buf1\<close> is non-empty, shorter than \<open>buf2\<close>, and equal to the first
  \<open>size1\<close> bytes of \<open>buf2\<close>, the comparison returns Equal: the
  \<^verbatim>\<open>memcmp\<close> fast path looks at \<open>size1\<close> bytes only and the two sizes are
  not compared.
\<close>

theorem C3_strict_prefix_is_equal:
  assumes "buf1 \<noteq> []"
      and "length buf1 < length buf2"
      and "take (length buf1) buf2 = buf1"
    shows "upb_Message_UnknownFieldsAreEqual al buf1 buf2 d = Inr kUpb_UnknownCompareResult_Equal"
proof -
  from assms(2,3) have "memcmp_is_0 buf1 buf2 (length buf1) = Inr True"
    by (intro memcmp_is_0_prefix) simp_all
  with assms(1,2) show ?thesis
    by (auto simp: upb_Message_UnknownFieldsAreEqual_def)
qed

theorem C3_strict_prefix_is_equal_witness:
  "[0x08, 0x01] \<noteq> ([] :: byte list) \<and>
   length [0x08, 0x01 :: byte] < length [0x08, 0x01, 0x10, 0x02 :: byte] \<and>
   take (length [0x08, 0x01 :: byte]) [0x08, 0x01, 0x10, 0x02] = [0x08, 0x01 :: byte] \<and>
   upb_Message_UnknownFieldsAreEqual no_failure [0x08, 0x01] [0x08, 0x01, 0x10, 0x02] 1 =
     Inr kUpb_UnknownCompareResult_Equal"
  using C3_strict_prefix_is_equal [of "[0x08, 0x01]" "[0x08, 0x01, 0x10, 0x02]" no_failure 1]
  by simp

text \<open>
  C4. A failure of \<^verbatim>\<open>realloc\<close> for the scratch buffer is not reported as
  OutOfMemory. \<open>buf1\<close> holds the fields 2, 1, which must be sorted, and
  \<open>buf2\<close> the same fields as 1, 2; the null
  pointer returned by \<^verbatim>\<open>realloc\<close> is stored and the first merge copies
  into it. On the same buffers a failure of the arena is reported: of its
  first request, which grows the field array, and of its second, which
  allocates the set.
\<close>

theorem C4_scratch_failure_is_null_write:
  "upb_Message_UnknownFieldsAreEqual
     \<lparr>arena_new_ok = True, arena_ok = (\<lambda>k. True), realloc_ok = (\<lambda>k. False)\<rparr>
     [0x10, 0x02, 0x08, 0x01] [0x08, 0x01, 0x10, 0x02] 1 = Inl NullWrite
   \<and> upb_Message_UnknownFieldsAreEqual
       \<lparr>arena_new_ok = True, arena_ok = (\<lambda>k. False), realloc_ok = (\<lambda>k. True)\<rparr>
       [0x10, 0x02, 0x08, 0x01] [0x08, 0x01, 0x10, 0x02] 1 = Inr kUpb_UnknownCompareResult_OutOfMemory
   \<and> upb_Message_UnknownFieldsAreEqual
       \<lparr>arena_new_ok = True, arena_ok = (\<lambda>k. k < 1), realloc_ok = (\<lambda>k. True)\<rparr>
       [0x10, 0x02, 0x08, 0x01] [0x08, 0x01, 0x10, 0x02] 1 = Inr kUpb_UnknownCompareResult_OutOfMemory
   \<and> upb_Message_UnknownFieldsAreEqual
       \<lparr>arena_new_ok = False, arena_ok = (\<lambda>k. True), realloc_ok = (\<lambda>k. True)\<rparr>
       [0x10, 0x02, 0x08, 0x01] [0x08, 0x01, 0x10, 0x02] 1 = Inr kUpb_UnknownCompareResult_OutOfMemory"
  by code_simp

text \<open>
  C5. Order of equal tags. \<open>X\<close> holds the fields 3, 4, 5, 1, 2 and then field 6
  twice, with the values 7 and 9; \<open>Y\<close> is \<open>X\<close> with the two values exchanged.
  The last merge has the runs \<open>[3, 4, 5]\<close> and \<open>[1, 2, 6, 6]\<close>; after 1, 2, 3,
  4, 5 it copies two fields from the start of the right run, so both fields 6
  are lost in both sets and the comparison returns Equal.
\<close>

theorem C5_exchanged_duplicates_equal:
  "upb_Message_UnknownFieldsAreEqual no_failure
     [0x18, 3, 0x20, 4, 0x28, 5, 0x08, 1, 0x10, 2, 0x30, 7, 0x30, 9]
     [0x18, 3, 0x20, 4, 0x28, 5, 0x08, 1, 0x10, 2, 0x30, 9, 0x30, 7] 1 =
     Inr kUpb_UnknownCompareResult_Equal"
  by code_simp

text \<open>
  C6. The end-group tag is read by the nested builder itself. For a
  well-formed group at \<open>pre\<close> with start tag \<open>t\<close>, contents \<open>fs\<close> and end tag
  \<open>e\<close>, under a budget that allows it, the nested builder is started at the
  byte after \<open>t\<close> and hands back the position of the byte after \<open>e\<close>; the
  caller appends the group and continues its loop at that same position.
\<close>

theorem C6_nested_builder_reads_end_tag:
  assumes "is_tag UPB_WIRE_TYPE_START_GROUP t" and "is_tag UPB_WIRE_TYPE_END_GROUP e"
      and "well_formed_list fs" and "never_fails al" and "ctx_ok ctx"
      and "buf = pre @ (t @ wire_bytes_list fs @ e) @ post" and "ctx_end ctx = length buf"
      and "1 \<le> sint (ctx_depth ctx)"
      and "int (Suc (group_levels_list fs)) < sint (ctx_depth ctx)"
  shows "\<exists>ctx3 grp.
           upb_UnknownFields_DoBuild al buf
             ((grown_ctx ctx (length arr) cap)\<lparr>ctx_depth := ctx_depth ctx - 1\<rparr>)
             (length pre + length t) =
             Inr (ctx3, length pre + length t + length (wire_bytes_list fs) + length e, grp) \<and>
           DoBuild_loop al buf ctx arr cap (length pre) lt s =
             DoBuild_loop al buf (ctx3\<lparr>ctx_depth := ctx_depth ctx3 + 1\<rparr>)
               (arr @ [UnknownField (ucast (varint_groups 0 t)) (Group grp)])
               (grown_cap (length arr) cap)
               (length pre + length t + length (wire_bytes_list fs) + length e)
               (ucast (varint_groups 0 t))
               (if varint_groups 0 t < ucast lt then False else s)"
proof -
  from assms(3,4) have so: "steps_over al (wire_bytes_list fs) (group_levels_list fs)"
    by (simp add: well_formed_steps_over)
  from assms(6,7) have ce: "ctx_end ctx = length (pre @ (t @ wire_bytes_list fs @ e) @ post)"
    by simp
  from assms(9) have "Suc (group_levels_list fs) \<le> unat (ctx_depth ctx - 1)"
    by (simp only: room_positive[OF assms(8)])
  from group_pass[OF assms(1,2) so assms(4,5) ce this, of arr cap lt s]
  show ?thesis unfolding assms(6) by blast
qed

theorem C6_nested_builder_reads_end_tag_witness:
  "is_tag UPB_WIRE_TYPE_START_GROUP [0x0B] \<and> is_tag UPB_WIRE_TYPE_END_GROUP [0x0C]
   \<and> well_formed_list [WVarint [0x10] [0x02]] \<and> never_fails no_failure
   \<and> ctx_ok \<lparr>ctx_end = 8, ctx_arena = 1, ctx_reallocs = 0, ctx_tmp = None, ctx_tmp_size = 0,
              ctx_depth = 2\<rparr>
   \<and> [0x08, 0x01, 0x0B, 0x10, 0x02, 0x0C, 0x18, 0x03] =
       [0x08, 0x01] @ ([0x0B] @ wire_bytes_list [WVarint [0x10] [0x02]] @ [0x0C]) @ [0x18, 0x03 :: byte]
   \<and> (\<exists>ctx3 grp.
        upb_UnknownFields_DoBuild no_failure [0x08, 0x01, 0x0B, 0x10, 0x02, 0x0C, 0x18, 0x03]
          \<lparr>ctx_end = 8, ctx_arena = 1, ctx_reallocs = 0, ctx_tmp = None, ctx_tmp_size = 0,
           ctx_depth = 1\<rparr> 3 = Inr (ctx3, 6, grp))"
proof -
  let ?c = "\<lparr>ctx_end = 8, ctx_arena = 1, ctx_reallocs = 0, ctx_tmp = None, ctx_tmp_size = 0,
             ctx_depth = 2 :: 32 word\<rparr>"
  let ?buf = "[0x08, 0x01, 0x0B, 0x10, 0x02, 0x0C, 0x18, 0x03 :: byte]"
  have 1: "is_tag UPB_WIRE_TYPE_START_GROUP [0x0B]" "is_tag UPB_WIRE_TYPE_END_GROUP [0x0C]"
    by code_simp+
  have 2: "well_formed_list [WVarint [0x10] [0x02]]" by code_simp
  have 3: "never_fails no_failure" by (simp add: never_fails_def no_failure_def)
  have 4: "ctx_ok ?c" by (simp add: ctx_ok_def)
  have 5: "?buf = [0x08, 0x01] @ ([0x0B] @ wire_bytes_list [WVarint [0x10] [0x02]] @ [0x0C]) @ [0x18, 0x03]"
    by simp
  have 6: "ctx_end ?c = length ?buf" "1 \<le> sint (ctx_depth ?c)"
    "int (Suc (group_levels_list [WVarint [0x10] [0x02]])) < sint (ctx_depth ?c)"
    by simp_all
  from C6_nested_builder_reads_end_tag [OF 1 2 3 4 5 6,
      where arr = "[UnknownField 0x08 (Varint 1)]" and cap = 4 and lt = 8 and s = True]
  obtain ctx3 grp where
    "upb_UnknownFields_DoBuild no_failure ?buf
       ((grown_ctx ?c (length [UnknownField 0x08 (Varint 1)]) 4)\<lparr>ctx_depth := ctx_depth ?c - 1\<rparr>)
       (length [0x08, 0x01 :: byte] + length [0x0B :: byte]) =
     Inr (ctx3, length [0x08, 0x01 :: byte] + length [0x0B :: byte] +
                length (wire_bytes_list [WVarint [0x10] [0x02]]) + length [0x0C :: byte], grp)"
    by blast
  then have "upb_UnknownFields_DoBuild no_failure ?buf
       \<lparr>ctx_end = 8, ctx_arena = 1, ctx_reallocs = 0, ctx_tmp = None, ctx_tmp_size = 0,
        ctx_depth = 1\<rparr> 3 = Inr (ctx3, 6, grp)"
    by (simp add: grown_ctx_def eval_nat_numeral)
  with 1 2 3 4 5 show ?thesis by blast
qed

theorem C6_cursor_past_end_tag_counterexample:
  "upb_UnknownFields_DoBuild no_failure [0x08, 0x01, 0x0B, 0x10, 0x02, 0x0C, 0x18, 0x03]
     \<lparr>ctx_end = 8, ctx_arena = 1, ctx_reallocs = 0, ctx_tmp = None, ctx_tmp_size = 0,
      ctx_depth = 1\<rparr> 3 =
     Inr (\<lparr>ctx_end = 8, ctx_arena = 3, ctx_reallocs = 0, ctx_tmp = None, ctx_tmp_size = 0,
           ctx_depth = 1\<rparr>, 6, [UnknownField 0x10 (Varint 2)])
   \<and> [0x08, 0x01, 0x0B, 0x10, 0x02, 0x0C, 0x18, 0x03 :: byte] ! 5 = 0x0C
   \<and> unat ((0x0C :: byte) AND 7) = UPB_WIRE_TYPE_END_GROUP"
  by code_simp

text \<open>
  C7. (1) Sets of different sizes are not equal. (2) On two sets whose
  payloads are those of their tags' wire types the comparator returns whether
  the sizes are equal and, at every position, the tags are equal and the
  payloads are equal: the same integer for varint, fixed64 and fixed32, the
  same bytes for delimited, and for groups the same sets, field by field, to
  any depth. (3) It stops at the first mismatch: if the fields before
  position \<open>i\<close> are pairwise equal and the fields at \<open>i\<close> differ, the result
  is not-equal whatever follows \<open>i\<close>, including fields that could not be read
  at all. (4) Every set that the builder returns is such a set.
\<close>

theorem C7_IsEqual_positionwise:
  "(length uf1 \<noteq> length uf2 \<longrightarrow> upb_UnknownFields_IsEqual uf1 uf2 = Inr False)
   \<and> (well_typed uf1 \<and> well_typed uf2 \<longrightarrow>
        upb_UnknownFields_IsEqual uf1 uf2 =
          Inr (length uf1 = length uf2 \<and>
               (\<forall>i<length uf1. tag (uf1 ! i) = tag (uf2 ! i) \<and> data (uf1 ! i) = data (uf2 ! i))))
   \<and> (length uf1 = length uf2 \<and> i < length uf1 \<and>
        well_typed (take (i + 1) uf1) \<and> well_typed (take (i + 1) uf2) \<and>
        (\<forall>k<i. uf1 ! k = uf2 ! k) \<and> uf1 ! i \<noteq> uf2 ! i \<longrightarrow>
        upb_UnknownFields_IsEqual uf1 uf2 = Inr False)
   \<and> (upb_UnknownFields_Build al ctx buf = Inr (ctx', uf) \<longrightarrow> well_typed uf)"
proof (intro conjI impI)
  assume "upb_UnknownFields_Build al ctx buf = Inr (ctx', uf)"
  then show "well_typed uf" by (rule Build_well_typed)
next
  assume "length uf1 \<noteq> length uf2"
  then show "upb_UnknownFields_IsEqual uf1 uf2 = Inr False"
    by (subst upb_UnknownFields_IsEqual.simps) simp
next
  assume "well_typed uf1 \<and> well_typed uf2"
  then have "upb_UnknownFields_IsEqual uf1 uf2 = Inr (uf1 = uf2)"
    by (simp add: IsEqual_structural)
  moreover have "uf1 = uf2 \<longleftrightarrow>
      length uf1 = length uf2 \<and>
      (\<forall>i<length uf1. tag (uf1 ! i) = tag (uf2 ! i) \<and> data (uf1 ! i) = data (uf2 ! i))"
    by (auto simp: list_eq_iff_nth_eq upb_UnknownField.expand)
  ultimately show "upb_UnknownFields_IsEqual uf1 uf2 =
      Inr (length uf1 = length uf2 \<and>
           (\<forall>i<length uf1. tag (uf1 ! i) = tag (uf2 ! i) \<and> data (uf1 ! i) = data (uf2 ! i)))"
    by simp
next
  assume a: "length uf1 = length uf2 \<and> i < length uf1 \<and>
        well_typed (take (i + 1) uf1) \<and> well_typed (take (i + 1) uf2) \<and>
        (\<forall>k<i. uf1 ! k = uf2 ! k) \<and> uf1 ! i \<noteq> uf2 ! i"
  have "well_typed_field (uf1 ! k) \<and> well_typed_field (uf2 ! k)" if "k \<le> i" for k
  proof -
    from that a have k: "k < length (take (i + 1) uf1)" "k < length (take (i + 1) uf2)"
      by simp_all
    from nth_mem[OF k(1)] nth_mem[OF k(2)] a that show ?thesis
      by (simp add: well_typed_def)
  qed
  then have "\<forall>k\<le>i. well_typed_field (uf1 ! k) \<and> well_typed_field (uf2 ! k)" by blast
  with a have "IsEqual_loop uf1 uf2 0 = Inr False"
    by (intro IsEqual_loop_first_mismatch[where i = i]) simp_all
  with a show "upb_UnknownFields_IsEqual uf1 uf2 = Inr False"
    by (subst upb_UnknownFields_IsEqual.simps) simp
qed

theorem C7_IsEqual_positionwise_witness:
  "length [UnknownField 0x08 (Varint 1)] \<noteq> length ([] :: upb_UnknownFields)
   \<and> upb_UnknownFields_IsEqual [UnknownField 0x08 (Varint 1)] [] = Inr False
   \<and> well_typed [UnknownField 0x0B (Group [UnknownField 0x08 (Varint 1)])]
   \<and> well_typed [UnknownField 0x0B (Group [UnknownField 0x08 (Varint 2)])]
   \<and> upb_UnknownFields_IsEqual
         [UnknownField 0x0B (Group [UnknownField 0x08 (Varint 1)])]
         [UnknownField 0x0B (Group [UnknownField 0x08 (Varint 2)])] = Inr False
   \<and> upb_UnknownFields_IsEqual
         [UnknownField 0x0B (Group [UnknownField 0x08 (Varint 1)])]
         [UnknownField 0x0B (Group [UnknownField 0x08 (Varint 1)])] = Inr True
   \<and> well_typed (take (0 + 1) [UnknownField 0x08 (Varint 1), UnknownField 0x08 (UInt32 0)])
   \<and> well_typed (take (0 + 1) [UnknownField 0x08 (Varint 2), UnknownField 0x09 (Delimited [])])
   \<and> \<not> well_typed [UnknownField 0x08 (Varint 1), UnknownField 0x08 (UInt32 0)]
   \<and> upb_UnknownFields_IsEqual
         [UnknownField 0x08 (Varint 1), UnknownField 0x08 (UInt32 0)]
         [UnknownField 0x08 (Varint 2), UnknownField 0x09 (Delimited [])] = Inr False
   \<and> upb_UnknownFields_Build no_failure
         \<lparr>ctx_end = 0, ctx_arena = 0, ctx_reallocs = 0, ctx_tmp = None, ctx_tmp_size = 0,
          ctx_depth = 2\<rparr> [0x0B, 0x10, 0x02, 0x0C] =
       Inr (\<lparr>ctx_end = 4, ctx_arena = 4, ctx_reallocs = 0, ctx_tmp = None, ctx_tmp_size = 0,
             ctx_depth = 2\<rparr>,
            [UnknownField 0x0B (Group [UnknownField 0x10 (Varint 2)])])
   \<and> well_typed [UnknownField 0x0B (Group [UnknownField 0x10 (Varint 2)])]"
  using
    C7_IsEqual_positionwise [of "[UnknownField 0x08 (Varint 1)]" "[]" 0]
    C7_IsEqual_positionwise
      [of "[UnknownField 0x0B (Group [UnknownField 0x08 (Varint 1)])]"
          "[UnknownField 0x0B (Group [UnknownField 0x08 (Varint 2)])]" 0]
    C7_IsEqual_positionwise
      [of "[UnknownField 0x0B (Group [UnknownField 0x08 (Varint 1)])]"
          "[UnknownField 0x0B (Group [UnknownField 0x08 (Varint 1)])]" 0]
    C7_IsEqual_positionwise
      [of "[UnknownField 0x08 (Varint 1), UnknownField 0x08 (UInt32 0)]"
          "[UnknownField 0x08 (Varint 2), UnknownField 0x09 (Delimited [])]" 0]
    C7_IsEqual_positionwise
      [where al = no_failure and buf = "[0x0B, 0x10, 0x02, 0x0C]"
         and ctx = "\<lparr>ctx_end = 0, ctx_arena = 0, ctx_reallocs = 0, ctx_tmp = None,
                     ctx_tmp_size = 0, ctx_depth = 2\<rparr>"
         and ctx' = "\<lparr>ctx_end = 4, ctx_arena = 4, ctx_reallocs = 0, ctx_tmp = None,
                      ctx_tmp_size = 0, ctx_depth = 2\<rparr>"
         and uf = "[UnknownField 11 (Group [UnknownField 16 (Varint 2)])]"]
    Build_group_example
  by (simp add: well_typed_def wire_type_defs)

text \<open>
  C8. Reflexivity: comparing a buffer \<open>X\<close> with itself returns Equal, for
  every buffer (well-formed or not), every depth bound and every allocator:
  the result comes from the empty check or from the \<^verbatim>\<open>memcmp\<close> fast path.
\<close>

theorem C8_reflexivity:
  "upb_Message_UnknownFieldsAreEqual al X X d = Inr kUpb_UnknownCompareResult_Equal"
  by (cases "X = []") (simp_all add: upb_Message_UnknownFieldsAreEqual_def memcmp_is_0_refl)

text \<open>
  C9. (1) On any buffer, the budget is the same after a builder returns as
  before it was called; (2) so entering a group (the budget less 1), the
  nested builder returning, and leaving the group (the budget plus 1) give
  back the budget from before the group. (3) With a positive budget, the
  builder of a well-formed buffer leaves with MaxDepthExceeded exactly when
  the budget less the number of group levels of the buffer is below 1: each
  level entered costs exactly 1. (4) With a budget of 0 or less the test
  \<^verbatim>\<open>--ctx->depth == 0\<close> does not fire: on a well-formed buffer whose
  group levels keep the counter within the range of \<^verbatim>\<open>int\<close> (the budget
  less the number of levels is at least \<open>- 2 ^ 31\<close>) the builder returns a
  set, with the budget unchanged.
\<close>

theorem C9_depth_budget:
  "(upb_UnknownFields_DoBuild al buf ctx p = Inr (ctx', p', uf) \<longrightarrow> ctx_depth ctx' = ctx_depth ctx)
   \<and> (upb_UnknownFields_DoBuild al buf (ctx\<lparr>ctx_depth := ctx_depth ctx - 1\<rparr>) q =
          Inr (ctxg, q', grp) \<longrightarrow>
        ctx_depth (ctxg\<lparr>ctx_depth := ctx_depth ctxg + 1\<rparr>) = ctx_depth ctx)
   \<and> (never_fails al \<and> well_formed_list fs \<and> ctx_ok ctx \<and> 1 \<le> sint (ctx_depth ctx) \<longrightarrow>
        (upb_UnknownFields_Build al ctx (wire_bytes_list fs) =
           Inl (Longjmp kUpb_UnknownCompareResult_MaxDepthExceeded)
         \<longleftrightarrow> sint (ctx_depth ctx) - int (group_levels_list fs) < 1))
   \<and> (never_fails al \<and> well_formed_list fs \<and> ctx_ok ctx \<and> sint (ctx_depth ctx) \<le> 0 \<and>
        - (2 ^ 31) \<le> sint (ctx_depth ctx) - int (group_levels_list fs) \<longrightarrow>
        (\<exists>ctxr ufr. upb_UnknownFields_Build al ctx (wire_bytes_list fs) = Inr (ctxr, ufr) \<and>
           ctx_depth ctxr = ctx_depth ctx))"
proof (intro conjI impI)
  assume "upb_UnknownFields_DoBuild al buf ctx p = Inr (ctx', p', uf)"
  with DoBuild_keeps(1)[of al buf ctx p] show "ctx_depth ctx' = ctx_depth ctx" by blast
next
  assume "upb_UnknownFields_DoBuild al buf (ctx\<lparr>ctx_depth := ctx_depth ctx - 1\<rparr>) q =
            Inr (ctxg, q', grp)"
  with DoBuild_keeps(1)[of al buf "ctx\<lparr>ctx_depth := ctx_depth ctx - 1\<rparr>" q]
  have "ctx_depth ctxg = ctx_depth ctx - 1" by auto
  then show "ctx_depth (ctxg\<lparr>ctx_depth := ctx_depth ctxg + 1\<rparr>) = ctx_depth ctx" by simp
next
  assume a: "never_fails al \<and> well_formed_list fs \<and> ctx_ok ctx \<and> 1 \<le> sint (ctx_depth ctx)"
  show "upb_UnknownFields_Build al ctx (wire_bytes_list fs) =
           Inl (Longjmp kUpb_UnknownCompareResult_MaxDepthExceeded)
         \<longleftrightarrow> sint (ctx_depth ctx) - int (group_levels_list fs) < 1"
  proof (cases "int (group_levels_list fs) < sint (ctx_depth ctx)")
    case True
    with Build_pass[of al fs ctx] a room_positive[of "ctx_depth ctx" "group_levels_list fs"]
    show ?thesis by auto
  next
    case False
    with Build_abort[of al fs ctx] a room_positive[of "ctx_depth ctx" "group_levels_list fs"]
    show ?thesis by auto
  qed
next
  assume a: "never_fails al \<and> well_formed_list fs \<and> ctx_ok ctx \<and> sint (ctx_depth ctx) \<le> 0 \<and>
        - (2 ^ 31) \<le> sint (ctx_depth ctx) - int (group_levels_list fs)"
  then have "group_levels_list fs \<le> unat (ctx_depth ctx - 1)"
    by (intro room_nonpositive) simp_all
  with Build_pass[of al fs ctx] a
  show "\<exists>ctxr ufr. upb_UnknownFields_Build al ctx (wire_bytes_list fs) = Inr (ctxr, ufr) \<and>
          ctx_depth ctxr = ctx_depth ctx"
    by blast
qed

theorem C9_depth_budget_witness:
  "upb_UnknownFields_DoBuild no_failure [0x0B, 0x0C]
     \<lparr>ctx_end = 2, ctx_arena = 0, ctx_reallocs = 0, ctx_tmp = None, ctx_tmp_size = 0,
      ctx_depth = 2\<rparr> 0 =
     Inr (\<lparr>ctx_end = 2, ctx_arena = 3, ctx_reallocs = 0, ctx_tmp = None, ctx_tmp_size = 0,
           ctx_depth = 2\<rparr>, 2, [UnknownField 0x0B (Group [])])
   \<and> upb_UnknownFields_DoBuild no_failure [0x0B, 0x0C]
       (\<lparr>ctx_end = 2, ctx_arena = 0, ctx_reallocs = 0, ctx_tmp = None, ctx_tmp_size = 0,
         ctx_depth = 2\<rparr>\<lparr>ctx_depth := 2 - 1\<rparr>) 1 =
       Inr (\<lparr>ctx_end = 2, ctx_arena = 1, ctx_reallocs = 0, ctx_tmp = None, ctx_tmp_size = 0,
             ctx_depth = 1\<rparr>, 2, [])
   \<and> never_fails no_failure
   \<and> well_formed_list [WGroup [0x0B] [WGroup [0x13] [] [0x14]] [0x0C]]
   \<and> ctx_ok \<lparr>ctx_end = 2, ctx_arena = 0, ctx_reallocs = 0, ctx_tmp = None, ctx_tmp_size = 0,
              ctx_depth = 2\<rparr>
   \<and> upb_UnknownFields_Build no_failure
        \<lparr>ctx_end = 2, ctx_arena = 0, ctx_reallocs = 0, ctx_tmp = None, ctx_tmp_size = 0,
         ctx_depth = 2\<rparr>
        (wire_bytes_list [WGroup [0x0B] [WGroup [0x13] [] [0x14]] [0x0C]]) =
       Inl (Longjmp kUpb_UnknownCompareResult_MaxDepthExceeded)
   \<and> ctx_ok \<lparr>ctx_end = 0, ctx_arena = 0, ctx_reallocs = 0, ctx_tmp = None, ctx_tmp_size = 0,
              ctx_depth = 0\<rparr>
   \<and> sint (0 :: 32 word) \<le> 0
   \<and> - (2 ^ 31) \<le>
       sint (0 :: 32 word) - int (group_levels_list [WGroup [0x0B] [WGroup [0x13] [] [0x14]] [0x0C]])
   \<and> (\<exists>ctxr ufr.
         upb_UnknownFields_Build no_failure
           \<lparr>ctx_end = 0, ctx_arena = 0, ctx_reallocs = 0, ctx_tmp = None, ctx_tmp_size = 0,
            ctx_depth = 0\<rparr>
           (wire_bytes_list [WGroup [0x0B] [WGroup [0x13] [] [0x14]] [0x0C]]) = Inr (ctxr, ufr) \<and>
         ctx_depth ctxr = 0)"
proof -
  let ?c = "\<lparr>ctx_end = 2, ctx_arena = 0, ctx_reallocs = 0, ctx_tmp = None, ctx_tmp_size = 0,
             ctx_depth = 2 :: 32 word\<rparr>"
  let ?z = "\<lparr>ctx_end = 0, ctx_arena = 0, ctx_reallocs = 0, ctx_tmp = None, ctx_tmp_size = 0,
             ctx_depth = 0 :: 32 word\<rparr>"
  let ?fs = "[WGroup [0x0B] [WGroup [0x13] [] [0x14]] [0x0C]]"
  have 1: "upb_UnknownFields_DoBuild no_failure [0x0B, 0x0C] ?c 0 =
     Inr (\<lparr>ctx_end = 2, ctx_arena = 3, ctx_reallocs = 0, ctx_tmp = None, ctx_tmp_size = 0,
           ctx_depth = 2\<rparr>, 2, [UnknownField 0x0B (Group [])])"
    by code_simp
  have nested: "upb_UnknownFields_DoBuild no_failure [0x0B, 0x0C] (?c\<lparr>ctx_depth := 2 - 1\<rparr>) 1 =
       Inr (\<lparr>ctx_end = 2, ctx_arena = 1, ctx_reallocs = 0, ctx_tmp = None, ctx_tmp_size = 0,
             ctx_depth = 1\<rparr>, 2, [])"
    by code_simp
  have 2: "never_fails no_failure" by (simp add: never_fails_def no_failure_def)
  have 3: "well_formed_list ?fs" by code_simp
  have 4: "ctx_ok ?c" "ctx_ok ?z" by (simp_all add: ctx_ok_def)
  have 5: "sint (ctx_depth ?c) - int (group_levels_list ?fs) < 1" "1 \<le> sint (ctx_depth ?c)"
    by simp_all
  have 6: "sint (ctx_depth ?z) \<le> 0"
    "- (2 ^ 31) \<le> sint (ctx_depth ?z) - int (group_levels_list ?fs)"
    by simp_all
  have pos: "upb_UnknownFields_Build no_failure ?c (wire_bytes_list ?fs) =
       Inl (Longjmp kUpb_UnknownCompareResult_MaxDepthExceeded)"
    using C9_depth_budget [where al = no_failure and buf = "[0x0B, 0x0C]" and ctx = ?c and p = 0
      and ctx' = "\<lparr>ctx_end = 2, ctx_arena = 3, ctx_reallocs = 0, ctx_tmp = None,
                   ctx_tmp_size = 0, ctx_depth = 2\<rparr>"
      and p' = 2 and uf = "[UnknownField 11 (Group [])]" and q = 1
      and ctxg = "\<lparr>ctx_end = 2, ctx_arena = 1, ctx_reallocs = 0, ctx_tmp = None,
                   ctx_tmp_size = 0, ctx_depth = 1\<rparr>"
      and q' = 2 and grp = "[]" and fs = ?fs] 1 nested 2 3 4 5
    by simp
  have "\<exists>ctxr ufr. upb_UnknownFields_Build no_failure ?z (wire_bytes_list ?fs) = Inr (ctxr, ufr) \<and>
          ctx_depth ctxr = ctx_depth ?z"
    using C9_depth_budget [where al = no_failure and ctx = ?z and fs = ?fs] 2 3 4 6
    by blast
  then have neg: "\<exists>ctxr ufr.
      upb_UnknownFields_Build no_failure ?z (wire_bytes_list ?fs) = Inr (ctxr, ufr) \<and>
      ctx_depth ctxr = 0"
    by simp
  from 1 nested 2 3 4 pos neg show ?thesis by simp
qed

theorem C9_budget_zero_counterexample:
  "upb_Message_UnknownFieldsAreEqual no_failure [0x0B, 0x0C] [0x0B, 0x08, 0x01, 0x0C] 0 =
     Inr kUpb_UnknownCompareResult_NotEqual"
  by code_simp

text \<open>
  C10. Let the bytes at \<open>ptr, \<dots>, ptr + k - 1\<close> have the continuation bit set
  and the byte at \<open>ptr + k\<close> have it clear, with \<open>k < 10\<close> and all of them
  before \<open>limit\<close>. Then the decoder stops at byte \<open>k\<close>, returns the pointer
  advanced by the \<open>k + 1 \<le> 10\<close> bytes read, and the value whose bit \<open>n\<close> is
  bit \<open>n mod 7\<close> of byte \<open>n div 7\<close>: 7-bit groups, least significant first,
  within 64 bits.
\<close>

theorem C10_ParseVarint_decodes:
  assumes "k < 10"
      and "ptr + k < limit"
      and "limit \<le> length buf"
      and "\<forall>i<k. buf ! (ptr + i) AND 0x80 \<noteq> 0"
      and "buf ! (ptr + k) AND 0x80 = 0"
    shows "upb_UnknownFields_ParseVarint buf ptr limit =
             Inr (ptr + (k + 1), varint_groups 0 (take (k + 1) (drop ptr buf)))
           \<and> (\<forall>n. bit (varint_groups 0 (take (k + 1) (drop ptr buf))) n \<longleftrightarrow>
                  n < 64 \<and> n div 7 \<le> k \<and> bit (buf ! (ptr + n div 7)) (n mod 7))"
proof -
  define v where "v = take (k + 1) (drop ptr buf)"
  from assms(2,3) have len: "length v = k + 1" by (simp add: v_def)
  have nth: "v ! i = buf ! (ptr + i)" if "i \<le> k" for i
    using that assms(2,3) by (simp add: v_def)
  have buf: "buf = take ptr buf @ v @ drop (ptr + (k + 1)) buf"
    unfolding v_def by (metis add.commute append_take_drop_id drop_drop)
  have lp: "length (take ptr buf) = ptr" using assms(2,3) by simp
  from len have "v \<noteq> []" by auto
  then have "last v = v ! k" using len by (simp add: last_conv_nth)
  with nth[of k] assms(5) have "last v AND 0x80 = 0" by simp
  moreover have "\<forall>i < length v - 1. v ! i AND 0x80 \<noteq> 0"
    using len assms(4) nth by simp
  ultimately have "continued v"
    unfolding continued_iff using \<open>v \<noteq> []\<close> by blast
  with assms(1) len have "is_varint v" by (simp add: is_varint_def)
  from ParseVarint_bytes[OF this, of "take ptr buf" limit "drop (ptr + (k + 1)) buf"]
  have "upb_UnknownFields_ParseVarint buf ptr limit = Inr (ptr + (k + 1), varint_groups 0 v)"
    using buf lp len assms(2) by simp
  moreover have "bit (varint_groups 0 v) n \<longleftrightarrow>
                   n < 64 \<and> n div 7 \<le> k \<and> bit (buf ! (ptr + n div 7)) (n mod 7)" for n
    unfolding bit_varint_groups using len nth[of "n div 7"] by auto
  ultimately show ?thesis unfolding v_def by blast
qed

theorem C10_ParseVarint_decodes_witness:
  "(1::nat) < 10 \<and> (0::nat) + 1 < 2 \<and> (2::nat) \<le> length [0x96, 0x01 :: byte] \<and>
   [0x96, 0x01 :: byte] ! (0 + 0) AND 0x80 \<noteq> 0 \<and>
   [0x96, 0x01 :: byte] ! (0 + 1) AND 0x80 = 0 \<and>
   upb_UnknownFields_ParseVarint [0x96, 0x01] 0 2 = Inr (2, 150)"
  using C10_ParseVarint_decodes [of 1 0 2 "[0x96, 0x01]"] by simp

end
